theory Spec2Isabelle
  imports Main
begin

section \<open>Python values used by the renderer\<close>

text \<open>
  A Python \<^verbatim>\<open>str\<close> is a sequence of Unicode code points, and \<^verbatim>\<open>len\<close> counts code points.
  A string is therefore a list of code points (natural numbers); \<open>str_lit\<close> turns an
  ASCII literal into one. Python integers are unbounded: offsets and counters are \<open>int\<close>.
\<close>

type_synonym pystr = "nat list"

definition str_lit :: "string \<Rightarrow> pystr" where
  "str_lit s = map of_char s"

text \<open>
  \<^verbatim>\<open>seq[lo:hi]\<close> with step 1: a negative index counts from the end, and both indices are
  clamped into \<open>[0, len]\<close>; the slice is empty when the adjusted \<open>lo\<close> is not below the
  adjusted \<open>hi\<close>.
\<close>

definition adjust_index :: "int \<Rightarrow> int \<Rightarrow> nat" where
  "adjust_index n i = (if i < 0 then nat (max (i + n) 0) else nat (min i n))"

definition py_slice :: "'a list \<Rightarrow> int \<Rightarrow> int \<Rightarrow> 'a list" where
  "py_slice xs lo hi =
     (let n = int (length xs); a = adjust_index n lo; b = adjust_index n hi
      in take (b - a) (drop a xs))"

text \<open>
  \<^verbatim>\<open>str.splitlines(True)\<close>: the lines of a string, each with its line boundary kept. The
  boundaries are LF, VT, FF, CR, CR LF (one boundary), FS, GS, RS, NEL, LS and PS. The
  first argument of \<open>splitlines_from\<close> is the line read so far.
\<close>

definition is_linebreak :: "nat \<Rightarrow> bool" where
  "is_linebreak c \<longleftrightarrow> c \<in> {10, 11, 12, 13, 28, 29, 30, 133, 8232, 8233}"

fun splitlines_from :: "pystr \<Rightarrow> pystr \<Rightarrow> pystr list" where
  "splitlines_from line [] = (if line = [] then [] else [line])"
| "splitlines_from line [c] = [line @ [c]]"
| "splitlines_from line (c # d # cs) =
     (if c = 13 \<and> d = 10 then (line @ [c, d]) # splitlines_from [] cs
      else if is_linebreak c then (line @ [c]) # splitlines_from [] (d # cs)
      else splitlines_from (line @ [c]) (d # cs))"

definition splitlines :: "pystr \<Rightarrow> pystr list" where
  "splitlines s = splitlines_from [] s"

text \<open>
  \<^verbatim>\<open>sorted(xs, key=key, reverse=True)\<close>: descending by key, and stable (elements with
  equal keys keep the order they had in \<open>xs\<close>).
\<close>

definition py_sorted_reverse :: "('a \<Rightarrow> 'k::linorder) \<Rightarrow> 'a list \<Rightarrow> 'a list" where
  "py_sorted_reverse key xs = rev (sort_key key (rev xs))"

text \<open>\<^verbatim>\<open>str(i)\<close> for an integer, as the f-string of \<^verbatim>\<open>frag_id\<close> formats the counter.\<close>

fun digits :: "nat \<Rightarrow> pystr" where
  "digits n = (if n < 10 then [48 + n] else digits (n div 10) @ [48 + n mod 10])"

declare digits.simps [simp del]

definition str_int :: "int \<Rightarrow> pystr" where
  "str_int i = (if i < 0 then 45 # digits (nat (- i)) else digits (nat i))"

text \<open>
  The exceptions of the model: \<open>ReadError\<close> when opening or reading a file raises,
  \<open>IndexError\<close> for \<^verbatim>\<open>res[0]\<close> on an empty list.
\<close>

datatype error = ReadError | IndexError

section \<open>Inputs of the renderer\<close>

text \<open>
  The classes \<^verbatim>\<open>File\<close>, \<^verbatim>\<open>Span\<close>, \<^verbatim>\<open>Group\<close> and \<^verbatim>\<open>Submission\<close> are declared outside
  \<^verbatim>\<open>renderer.py\<close>; the records below hold the attributes the renderer reads. Record
  fields share one name space, so each field carries the name of its class as a prefix.
  Objects are compared with \<^verbatim>\<open>==\<close>; an object is identified with its value.
\<close>

record src_file =
  file_name :: pystr
  file_path :: pystr

record span =
  span_file :: src_file
  span_start :: int
  span_end :: int

record group =
  group_spans :: "span set"

record submission =
  sub_path :: pystr
  sub_files :: "src_file list"

text \<open>
  The text that \<^verbatim>\<open>open(file.path).read()\<close> returns, by path; \<open>None\<close> when opening or
  reading raises.
\<close>

type_synonym filesystem = "pystr \<rightharpoonup> pystr"

text \<open>
  The order in which a \<^verbatim>\<open>for\<close> loop or \<^verbatim>\<open>sorted\<close> visits the elements of a Python set
  is fixed by the hash table, not by the program. It is a parameter of the model: a
  function from a set of spans to the sequence of its elements.
\<close>

type_synonym set_order = "span set \<Rightarrow> span list"

definition iterates :: "set_order \<Rightarrow> span set \<Rightarrow> bool" where
  "iterates ord U = (\<forall>S. S \<subseteq> U \<longrightarrow> set (ord S) = S \<and> distinct (ord S))"

text \<open>An iteration order that visits the members of a set in the order of a given list.\<close>

definition order_of_list :: "span list \<Rightarrow> set_order" where
  "order_of_list xs S = filter (\<lambda>x. x \<in> S) (remdups xs)"

section \<open>The data model\<close>

record fragment =
  frag_content :: "pystr list"
  frag_spans :: "span list"

text \<open>
  The constructor \<^verbatim>\<open>Fragment(content, spans)\<close> with its converters: the content is split
  into lines, the spans become a tuple. \<^verbatim>\<open>Fragment(content)\<close> is \<open>Fragment content []\<close>.
\<close>

definition Fragment :: "pystr \<Rightarrow> span list \<Rightarrow> fragment" where
  "Fragment c sp = \<lparr>frag_content = splitlines c, frag_spans = sp\<rparr>"

section \<open>The fragment slicer\<close>

text \<open>
  The two \<^verbatim>\<open>defaultdict(set)\<close> are total functions whose default is the empty set.
\<close>

record slicer =
  slicing_marks :: "int set"
  start_to_spans :: "int \<Rightarrow> span set"
  end_to_spans :: "int \<Rightarrow> span set"

definition slicer_init :: slicer where
  "slicer_init = \<lparr>slicing_marks = {}, start_to_spans = (\<lambda>_. {}), end_to_spans = (\<lambda>_. {})\<rparr>"

definition add_span :: "slicer \<Rightarrow> span \<Rightarrow> slicer" where
  "add_span self sp =
     self\<lparr>slicing_marks := insert (span_end sp) (insert (span_start sp) (slicing_marks self)),
          start_to_spans := (start_to_spans self)
             (span_start sp := insert sp (start_to_spans self (span_start sp))),
          end_to_spans := (end_to_spans self)
             (span_end sp := insert sp (end_to_spans self (span_end sp)))\<rparr>"

text \<open>The first loop of \<^verbatim>\<open>slice\<close>: the set of spans at every fragment.\<close>

fun span_sets :: "slicer \<Rightarrow> span set list \<Rightarrow> int list \<Rightarrow> span set list" where
  "span_sets self spans [] = spans"
| "span_sets self spans (mark # marks) =
     span_sets self
       (spans @ [(last spans \<union> start_to_spans self mark) - end_to_spans self mark]) marks"

text \<open>The last mark is the length of the file, unless a mark reaches it already.\<close>

definition close_marks :: "pystr \<Rightarrow> int list \<Rightarrow> int list" where
  "close_marks content marks =
     (if marks \<noteq> [] \<and> last marks < int (length content)
      then marks @ [int (length content)] else marks)"

text \<open>The second loop of \<^verbatim>\<open>slice\<close>: one fragment per pair of a span set and a mark.\<close>

fun split_fragments :: "set_order \<Rightarrow> pystr \<Rightarrow> int \<Rightarrow> (span set \<times> int) list \<Rightarrow> fragment list" where
  "split_fragments ord content start_mark [] = []"
| "split_fragments ord content start_mark ((fragment_spans, mark) # rest) =
     Fragment (py_slice content start_mark mark)
       (py_sorted_reverse (\<lambda>sp. span_end sp - span_start sp) (ord fragment_spans))
     # split_fragments ord content mark rest"

text \<open>
  \<^verbatim>\<open>slice\<close> reads the file and cuts its text at the marks. The slicer is local to
  \<^verbatim>\<open>fragmentize\<close> and dropped after the call, so the model returns the fragments only.
\<close>

definition slice :: "set_order \<Rightarrow> filesystem \<Rightarrow> slicer \<Rightarrow> src_file \<Rightarrow> error + fragment list" where
  "slice ord fs self file =
     (let marks = slicing_marks self - {0} in
      case fs (file_path file) of
        None \<Rightarrow> Inl ReadError
      | Some content \<Rightarrow>
          if marks = {} then Inr [Fragment content []]
          else
            let sorted_marks = sorted_list_of_set marks;
                spans = span_sets self [start_to_spans self 0 - end_to_spans self 0] sorted_marks
            in Inr (split_fragments ord content 0 (zip spans (close_marks content sorted_marks))))"

definition fragmentize :: "set_order \<Rightarrow> filesystem \<Rightarrow> src_file \<Rightarrow> span list \<Rightarrow> error + fragment list" where
  "fragmentize ord fs file spans = slice ord fs (foldl add_span slicer_init spans) file"

section \<open>The renderer\<close>

text \<open>
  Modelled from the spec: the class \<^verbatim>\<open>IdStore\<close> is imported from another module. It
  assigns stable, insertion-ordered integer identifiers to objects on first sight and
  remembers them: the first object looked up gets 0, the next new one 1, and so on.
\<close>

record 'a idstore =
  ids :: "'a \<rightharpoonup> nat"
  num_objects :: nat

definition idstore_init :: "'a idstore" where
  "idstore_init = \<lparr>ids = Map.empty, num_objects = 0\<rparr>"

definition idstore_get :: "'a idstore \<Rightarrow> 'a \<Rightarrow> nat \<times> 'a idstore" where
  "idstore_get store obj =
     (case ids store obj of
        Some i \<Rightarrow> (i, store)
      | None \<Rightarrow> (num_objects store,
                 store\<lparr>ids := (ids store)(obj \<mapsto> num_objects store),
                       num_objects := num_objects store + 1\<rparr>))"

record html_fragment =
  hfrag_id :: pystr
  hfrag_content :: "pystr list"
  hfrag_is_ignored :: bool
  hfrag_is_grouped :: bool
  hfrag_spans :: "span list"

record html_file =
  hfile_name :: pystr
  hfile_fragments :: "html_fragment list"
  hfile_num_chars_matched :: int
  hfile_num_chars :: int

record html_submission =
  hsub_name :: pystr
  hsub_files :: "html_file list"
  hsub_num_chars_matched :: int
  hsub_num_chars :: int

record data =
  data_span_to_group :: "nat \<rightharpoonup> nat"
  data_fragment_to_spans :: "pystr \<rightharpoonup> nat list"

text \<open>
  The state of a \<^verbatim>\<open>_Renderer\<close>. A method that changes it returns its result together
  with the new state.
\<close>

record renderer =
  frag_id_counter :: int
  span_id_store :: "span idstore"
  group_id_store :: "group idstore"

definition renderer_init :: renderer where
  "renderer_init =
     \<lparr>frag_id_counter = - 1, span_id_store = idstore_init, group_id_store = idstore_init\<rparr>"

definition frag_id :: "renderer \<Rightarrow> fragment \<Rightarrow> pystr \<times> renderer" where
  "frag_id self frag =
     (let self' = self\<lparr>frag_id_counter := frag_id_counter self + 1\<rparr>
      in (str_lit ''frag'' @ str_int (frag_id_counter self'), self'))"

definition group_id :: "renderer \<Rightarrow> group \<Rightarrow> nat \<times> renderer" where
  "group_id self g =
     (let (i, store) = idstore_get (group_id_store self) g
      in (i, self\<lparr>group_id_store := store\<rparr>))"

definition span_id :: "renderer \<Rightarrow> span \<Rightarrow> nat \<times> renderer" where
  "span_id self sp =
     (let (i, store) = idstore_get (span_id_store self) sp
      in (i, self\<lparr>span_id_store := store\<rparr>))"

text \<open>The loop of \<^verbatim>\<open>html_fragments\<close> over the fragments of one file.\<close>

fun html_fragments_loop ::
  "renderer \<Rightarrow> span set \<Rightarrow> fragment list \<Rightarrow> html_fragment list \<times> renderer" where
  "html_fragments_loop self ignored_spans [] = ([], self)"
| "html_fragments_loop self ignored_spans (fragment # rest) =
     (let (fid, self1) = frag_id self fragment;
          is_ignored = list_ex (\<lambda>sp. sp \<in> ignored_spans) (frag_spans fragment);
          is_grouped = list_ex (\<lambda>sp. sp \<notin> ignored_spans) (frag_spans fragment);
          (frags, self2) = html_fragments_loop self1 ignored_spans rest
      in (\<lparr>hfrag_id = fid, hfrag_content = frag_content fragment,
            hfrag_is_ignored = is_ignored, hfrag_is_grouped = is_grouped,
            hfrag_spans = frag_spans fragment\<rparr> # frags, self2))"

definition html_fragments ::
  "set_order \<Rightarrow> filesystem \<Rightarrow> renderer \<Rightarrow> src_file \<Rightarrow> span list \<Rightarrow> span set
     \<Rightarrow> error + (html_fragment list \<times> renderer)" where
  "html_fragments ord fs self file spans ignored_spans =
     (case fragmentize ord fs file spans of
        Inl e \<Rightarrow> Inl e
      | Inr fragments \<Rightarrow> Inr (html_fragments_loop self ignored_spans fragments))"

text \<open>
  The counting loop of \<^verbatim>\<open>html_files\<close>; the accumulator is the pair
  \<open>(num_chars, num_chars_matched)\<close>.
\<close>

fun count_chars :: "html_fragment list \<Rightarrow> int \<times> int \<Rightarrow> int \<times> int" where
  "count_chars [] acc = acc"
| "count_chars (frag # rest) (num_chars, num_chars_matched) =
     (if \<not> hfrag_is_ignored frag then
        (let num_frag_chars = sum_list (map (\<lambda>line. int (length line)) (hfrag_content frag))
         in count_chars rest
              (num_chars + num_frag_chars,
               if hfrag_is_grouped frag then num_chars_matched + num_frag_chars
               else num_chars_matched))
      else count_chars rest (num_chars, num_chars_matched))"

text \<open>
  \<^verbatim>\<open>file_to_spans\<close> is a \<^verbatim>\<open>defaultdict(list)\<close>: a total function whose default is the
  empty list.
\<close>

fun html_files_loop ::
  "set_order \<Rightarrow> filesystem \<Rightarrow> renderer \<Rightarrow> (src_file \<Rightarrow> span list) \<Rightarrow> span set \<Rightarrow> src_file list
     \<Rightarrow> error + (html_file list \<times> renderer)" where
  "html_files_loop ord fs self file_to_spans ignored_spans [] = Inr ([], self)"
| "html_files_loop ord fs self file_to_spans ignored_spans (file # rest) =
     (case html_fragments ord fs self file (file_to_spans file) ignored_spans of
        Inl e \<Rightarrow> Inl e
      | Inr (html_frags, self1) \<Rightarrow>
          (let (num_chars, num_chars_matched) = count_chars html_frags (0, 0) in
           case html_files_loop ord fs self1 file_to_spans ignored_spans rest of
             Inl e \<Rightarrow> Inl e
           | Inr (files, self2) \<Rightarrow>
               Inr (\<lparr>hfile_name = file_name file, hfile_fragments = html_frags,
                      hfile_num_chars_matched = num_chars_matched,
                      hfile_num_chars = num_chars\<rparr> # files, self2)))"

definition html_files ::
  "set_order \<Rightarrow> filesystem \<Rightarrow> renderer \<Rightarrow> submission \<Rightarrow> (src_file \<Rightarrow> span list) \<Rightarrow> span set
     \<Rightarrow> error + (html_file list \<times> renderer)" where
  "html_files ord fs self sub file_to_spans ignored_spans =
     html_files_loop ord fs self file_to_spans ignored_spans (sub_files sub)"

definition html_submission ::
  "set_order \<Rightarrow> filesystem \<Rightarrow> renderer \<Rightarrow> submission \<Rightarrow> (src_file \<Rightarrow> span list) \<Rightarrow> span set
     \<Rightarrow> error + (html_submission \<times> renderer)" where
  "html_submission ord fs self sub file_to_spans ignored_spans =
     (case html_files ord fs self sub file_to_spans ignored_spans of
        Inl e \<Rightarrow> Inl e
      | Inr (files, self1) \<Rightarrow>
          (let num_chars_matched = sum_list (map hfile_num_chars_matched files);
               num_chars = sum_list (map hfile_num_chars files)
           in Inr (\<lparr>hsub_name = sub_path sub, hsub_files = files,
                     hsub_num_chars_matched = num_chars_matched,
                     hsub_num_chars = num_chars\<rparr>, self1)))"

text \<open>The list comprehension of \<^verbatim>\<open>data\<close>: the ids of a list of spans, in order.\<close>

fun span_ids :: "renderer \<Rightarrow> span list \<Rightarrow> nat list \<times> renderer" where
  "span_ids self [] = ([], self)"
| "span_ids self (sp # rest) =
     (let (i, self1) = span_id self sp;
          (is, self2) = span_ids self1 rest
      in (i # is, self2))"

text \<open>The first loop of \<^verbatim>\<open>data\<close>, over the fragments.\<close>

fun fragment_to_spans_loop ::
  "renderer \<Rightarrow> span set \<Rightarrow> html_fragment list \<Rightarrow> (pystr \<rightharpoonup> nat list)
     \<Rightarrow> (pystr \<rightharpoonup> nat list) \<times> renderer" where
  "fragment_to_spans_loop self ignored_spans [] fragment_to_spans = (fragment_to_spans, self)"
| "fragment_to_spans_loop self ignored_spans (fragment # rest) fragment_to_spans =
     (if hfrag_is_grouped fragment then
        (let (is, self1) =
               span_ids self (filter (\<lambda>sp. sp \<notin> ignored_spans) (hfrag_spans fragment))
         in fragment_to_spans_loop self1 ignored_spans rest
              (fragment_to_spans(hfrag_id fragment \<mapsto> is)))
      else fragment_to_spans_loop self ignored_spans rest fragment_to_spans)"

text \<open>The inner loop of the second loop of \<^verbatim>\<open>data\<close>, over the spans of one group.\<close>

fun group_spans_loop ::
  "renderer \<Rightarrow> nat \<Rightarrow> span list \<Rightarrow> (nat \<rightharpoonup> nat) \<Rightarrow> (nat \<rightharpoonup> nat) \<times> renderer" where
  "group_spans_loop self gid [] span_to_group = (span_to_group, self)"
| "group_spans_loop self gid (sp # rest) span_to_group =
     (let (i, self1) = span_id self sp
      in group_spans_loop self1 gid rest (span_to_group(i \<mapsto> gid)))"

text \<open>The second loop of \<^verbatim>\<open>data\<close>, over the groups.\<close>

fun span_to_group_loop ::
  "set_order \<Rightarrow> renderer \<Rightarrow> group list \<Rightarrow> (nat \<rightharpoonup> nat) \<Rightarrow> (nat \<rightharpoonup> nat) \<times> renderer" where
  "span_to_group_loop ord self [] span_to_group = (span_to_group, self)"
| "span_to_group_loop ord self (g # rest) span_to_group =
     (let (gid, self1) = group_id self g;
          (span_to_group1, self2) = group_spans_loop self1 gid (ord (group_spans g)) span_to_group
      in span_to_group_loop ord self2 rest span_to_group1)"

definition data ::
  "set_order \<Rightarrow> renderer \<Rightarrow> html_fragment list \<Rightarrow> group list \<Rightarrow> span set \<Rightarrow> data \<times> renderer" where
  "data ord self html_frags groups ignored_spans =
     (let (fragment_to_spans, self1) =
            fragment_to_spans_loop self ignored_spans html_frags Map.empty;
          (span_to_group, self2) = span_to_group_loop ord self1 groups Map.empty
      in (\<lparr>data_span_to_group = span_to_group,
            data_fragment_to_spans = fragment_to_spans\<rparr>, self2))"

section \<open>The render task and the top-level render\<close>

text \<open>
  Modelled from the spec: the classes \<^verbatim>\<open>Score\<close> and \<^verbatim>\<open>Result\<close> are declared in another
  module. A result pairs two submissions with a similarity score and the groups and
  ignored spans found between them; a score names the two submissions and carries the
  value by which scores are ordered (its type is a parameter).
\<close>

record 'k score =
  score_sub_a :: submission
  score_sub_b :: submission
  score_value :: 'k

record 'k result =
  res_sub_a :: submission
  res_sub_b :: submission
  res_score :: "'k score"
  res_groups :: "group list"
  res_ignored_spans :: "span list"

text \<open>
  \<^verbatim>\<open>file_to_spans[span.file].append(span)\<close>, and the two loops of \<^verbatim>\<open>__call__\<close> that fill
  \<^verbatim>\<open>file_to_spans\<close>: first the spans of every group, then the ignored spans.
\<close>

definition append_span :: "(src_file \<Rightarrow> span list) \<Rightarrow> span \<Rightarrow> (src_file \<Rightarrow> span list)" where
  "append_span file_to_spans sp =
     file_to_spans(span_file sp := file_to_spans (span_file sp) @ [sp])"

definition collect_spans :: "set_order \<Rightarrow> group list \<Rightarrow> span list \<Rightarrow> (src_file \<Rightarrow> span list)" where
  "collect_spans ord groups ignored_spans =
     foldl append_span
       (foldl (\<lambda>file_to_spans g. foldl append_span file_to_spans (ord (group_spans g)))
          (\<lambda>_. []) groups)
       ignored_spans"

text \<open>The list \<^verbatim>\<open>all_html_fragments\<close> that \<^verbatim>\<open>__call__\<close> builds from the two submissions.\<close>

definition all_html_fragments :: "html_submission \<Rightarrow> html_submission \<Rightarrow> html_fragment list" where
  "all_html_fragments sub_a sub_b =
     concat (map hfile_fragments (hsub_files sub_a)) @
     concat (map hfile_fragments (hsub_files sub_b))"

text \<open>
  The body of the loop of \<^verbatim>\<open>_RenderTask.__call__\<close> for one result, up to the data handed
  to the templates: the two annotated submissions and the cross-reference index.
\<close>

definition render_result ::
  "set_order \<Rightarrow> filesystem \<Rightarrow> 'k result \<Rightarrow> error + (html_submission \<times> html_submission \<times> data)" where
  "render_result ord fs result =
     (let score = res_score result;
          groups = res_groups result;
          file_to_spans = collect_spans ord groups (res_ignored_spans result);
          ignored_spans = set (res_ignored_spans result)
      in case html_submission ord fs renderer_init (score_sub_a score) file_to_spans ignored_spans of
           Inl e \<Rightarrow> Inl e
         | Inr (sub_a, self1) \<Rightarrow>
             (case html_submission ord fs self1 (score_sub_b score) file_to_spans ignored_spans of
                Inl e \<Rightarrow> Inl e
              | Inr (sub_b, self2) \<Rightarrow>
                  Inr (sub_a, sub_b,
                       fst (data ord self2 (all_html_fragments sub_a sub_b) groups
                              ignored_spans))))"

text \<open>
  \<^verbatim>\<open>sub_pair_to_results\<close> is a \<^verbatim>\<open>defaultdict(list)\<close>; a dictionary keeps its keys in the
  order of their first insertion, which is the order of \<^verbatim>\<open>values()\<close>. It is an
  association list, and \<open>dict_append d k v\<close> is \<^verbatim>\<open>d[k].append(v)\<close>.
\<close>

fun dict_append :: "('a \<times> 'v list) list \<Rightarrow> 'a \<Rightarrow> 'v \<Rightarrow> ('a \<times> 'v list) list" where
  "dict_append [] k v = [(k, [v])]"
| "dict_append ((k', vs) # d) k v =
     (if k' = k then (k', vs @ [v]) # d else (k', vs) # dict_append d k v)"

text \<open>The grouping loops of \<^verbatim>\<open>render\<close>; the argument is \<^verbatim>\<open>pass_to_results.values()\<close>.\<close>

definition sub_pair_to_results ::
  "'k result list list \<Rightarrow> ((submission \<times> submission) \<times> 'k result list) list" where
  "sub_pair_to_results passes =
     foldl (\<lambda>d results.
              foldl (\<lambda>d result. dict_append d (res_sub_a result, res_sub_b result) result)
                d results)
       [] passes"

text \<open>
  The buckets sorted by the score of their first result, highest first; \<^verbatim>\<open>res[0]\<close>
  raises on an empty bucket.
\<close>

definition results_per_sub_pair ::
  "('k::linorder) result list list \<Rightarrow> error + 'k result list list" where
  "results_per_sub_pair passes =
     (let buckets = map snd (sub_pair_to_results passes)
      in if list_ex (\<lambda>res. res = []) buckets then Inl IndexError
         else Inr (py_sorted_reverse (\<lambda>res. score_value (res_score (hd res))) buckets))"

text \<open>
  The pairs that \<^verbatim>\<open>render\<close> hands to the render task:
  \<^verbatim>\<open>enumerate(results_per_sub_pair, 1)\<close>.
\<close>

definition render_matches ::
  "('k::linorder) result list list \<Rightarrow> error + (nat \<times> 'k result list) list" where
  "render_matches passes =
     (case results_per_sub_pair passes of
        Inl e \<Rightarrow> Inl e
      | Inr buckets \<Rightarrow> Inr (enumerate 1 buckets))"

section \<open>Notions of the specification\<close>

text \<open>The text of a fragment: its lines, joined.\<close>

definition frag_text :: "fragment \<Rightarrow> pystr" where
  "frag_text f = concat (frag_content f)"

text \<open>A well-formed span over a text: \<open>0 \<le> start \<le> end \<le> len\<close>.\<close>

definition well_formed :: "pystr \<Rightarrow> span \<Rightarrow> bool" where
  "well_formed content sp \<longleftrightarrow>
     0 \<le> span_start sp \<and> span_start sp \<le> span_end sp \<and> span_end sp \<le> int (length content)"

text \<open>The input spans that cover the offset \<open>t\<close>: \<open>start \<le> t < end\<close>.\<close>

definition active :: "span list \<Rightarrow> int \<Rightarrow> span set" where
  "active spans t = {sp \<in> set spans. span_start sp \<le> t \<and> t < span_end sp}"

text \<open>
  The offsets at which \<^verbatim>\<open>slice\<close> cuts the text: the values of \<^verbatim>\<open>start_mark\<close> and
  \<^verbatim>\<open>mark\<close> in its second loop, or 0 and the length of the text when there is no mark.
  Fragment \<open>i\<close> is cut from the offset \<open>i\<close> of this list to the offset \<open>i + 1\<close>.
\<close>

definition cut_points :: "pystr \<Rightarrow> span list \<Rightarrow> int list" where
  "cut_points content spans =
     (let marks = slicing_marks (foldl add_span slicer_init spans) - {0}
      in if marks = {} then [0, int (length content)]
         else 0 # close_marks content (sorted_list_of_set marks))"

text \<open>The characters of a text at the offsets from \<open>lo\<close> up to, not including, \<open>hi\<close>.\<close>

definition chars_between :: "pystr \<Rightarrow> int \<Rightarrow> int \<Rightarrow> pystr" where
  "chars_between content lo hi = take (nat (hi - lo)) (drop (nat lo) content)"

text \<open>The fragment id that \<^verbatim>\<open>frag_id\<close> builds from the counter value \<open>i\<close>.\<close>

definition frag_name :: "int \<Rightarrow> pystr" where
  "frag_name i = str_lit ''frag'' @ str_int i"

text \<open>
  A store as a sequence of lookups leaves it: every id is below the number of objects,
  and no two objects share an id.
\<close>

definition idstore_ok :: "'a idstore \<Rightarrow> bool" where
  "idstore_ok store \<longleftrightarrow>
     (\<forall>x i. ids store x = Some i \<longrightarrow> i < num_objects store) \<and>
     (\<forall>x y i. ids store x = Some i \<and> ids store y = Some i \<longrightarrow> x = y)"

text \<open>The id that a renderer in the state \<open>self\<close> gives a span, and a group.\<close>

definition span_id_of :: "renderer \<Rightarrow> span \<Rightarrow> nat" where
  "span_id_of self sp = fst (span_id self sp)"

definition group_id_of :: "renderer \<Rightarrow> group \<Rightarrow> nat" where
  "group_id_of self g = fst (group_id self g)"

text \<open>The spans that have an id in the state \<open>self\<close>.\<close>

definition known_spans :: "renderer \<Rightarrow> span set" where
  "known_spans self = dom (ids (span_id_store self))"

text \<open>
  A later state of a renderer whose fragment counter has not moved: it keeps every id
  that the earlier state has assigned.
\<close>

definition extends :: "renderer \<Rightarrow> renderer \<Rightarrow> bool" where
  "extends self self' \<longleftrightarrow>
     ids (span_id_store self) \<subseteq>\<^sub>m ids (span_id_store self') \<and>
     ids (group_id_store self) \<subseteq>\<^sub>m ids (group_id_store self') \<and>
     frag_id_counter self' = frag_id_counter self"

text \<open>
  The ids of the spans of a fragment, ignored spans left out, read in the state \<open>self\<close>:
  what \<^verbatim>\<open>data\<close> records for a grouped fragment.
\<close>

definition recorded_ids :: "renderer \<Rightarrow> span set \<Rightarrow> html_fragment \<Rightarrow> nat list" where
  "recorded_ids self ign h = map (span_id_of self) (filter (\<lambda>sp. sp \<notin> ign) (hfrag_spans h))"

text \<open>The number of characters of an annotated fragment.\<close>

definition hfrag_chars :: "html_fragment \<Rightarrow> int" where
  "hfrag_chars h = int (length (concat (hfrag_content h)))"

text \<open>
  Spans whose offsets are not negative and whose start is not after their end; the end
  may lie beyond the end of the text.
\<close>

definition nonneg_spans :: "span list \<Rightarrow> bool" where
  "nonneg_spans spans \<longleftrightarrow>
     (\<forall>sp \<in> set spans. 0 \<le> span_start sp \<and> span_start sp \<le> span_end sp)"

text \<open>The pair of submissions of a result: the key of its bucket.\<close>

definition sub_pair :: "'k result \<Rightarrow> submission \<times> submission" where
  "sub_pair r = (res_sub_a r, res_sub_b r)"

text \<open>The score of the first result of a bucket: the key by which \<^verbatim>\<open>render\<close> sorts.\<close>

definition first_score :: "'k result list \<Rightarrow> 'k" where
  "first_score res = score_value (res_score (hd res))"

text \<open>The best score of a bucket.\<close>

definition best_score :: "('k::linorder) result list \<Rightarrow> 'k" where
  "best_score res = Max (set (map (\<lambda>r. score_value (res_score r)) res))"

text \<open>The elements of a list in the order of their first occurrence.\<close>

definition first_occurrences :: "'a list \<Rightarrow> 'a list" where
  "first_occurrences xs = rev (remdups (rev xs))"

text \<open>Spans without a negative offset; the start may lie after the end.\<close>

definition nonneg_offsets :: "span list \<Rightarrow> bool" where
  "nonneg_offsets spans \<longleftrightarrow> (\<forall>sp \<in> set spans. 0 \<le> span_start sp \<and> 0 \<le> span_end sp)"

section \<open>The scenarios of the specification\<close>

text \<open>The text \<^verbatim>\<open>abcdefghij\<close> with the spans \<open>S1 = [2, 6)\<close> and \<open>S2 = [4, 8)\<close>.\<close>

definition example_file :: src_file where
  "example_file = \<lparr>file_name = str_lit ''a.txt'', file_path = str_lit ''a.txt''\<rparr>"

definition example_fs :: filesystem where
  "example_fs = [str_lit ''a.txt'' \<mapsto> str_lit ''abcdefghij'']"

definition S1 :: span where
  "S1 = \<lparr>span_file = example_file, span_start = 2, span_end = 6\<rparr>"

definition S2 :: span where
  "S2 = \<lparr>span_file = example_file, span_start = 4, span_end = 8\<rparr>"

text \<open>A submission that holds the file of the scenario.\<close>

definition example_sub :: submission where
  "example_sub = \<lparr>sub_path = str_lit ''sub'', sub_files = [example_file]\<rparr>"

text \<open>The text \<^verbatim>\<open>hello\<close>, without spans.\<close>

definition hello_file :: src_file where
  "hello_file = \<lparr>file_name = str_lit ''hello.txt'', file_path = str_lit ''hello.txt''\<rparr>"

definition hello_fs :: filesystem where
  "hello_fs = [str_lit ''hello.txt'' \<mapsto> str_lit ''hello'']"

text \<open>
  Two grouped fragments that carry the same id, a third with an id of its own, and three
  groups, of which the first two share the span \<open>S1\<close>.
\<close>

definition twin_a :: html_fragment where
  "twin_a = \<lparr>hfrag_id = str_lit ''frag0'', hfrag_content = [str_lit ''cd''],
              hfrag_is_ignored = False, hfrag_is_grouped = True, hfrag_spans = [S1]\<rparr>"

definition twin_b :: html_fragment where
  "twin_b = \<lparr>hfrag_id = str_lit ''frag0'', hfrag_content = [str_lit ''gh''],
              hfrag_is_ignored = False, hfrag_is_grouped = True, hfrag_spans = [S2]\<rparr>"

definition single_c :: html_fragment where
  "single_c = \<lparr>hfrag_id = str_lit ''frag1'', hfrag_content = [str_lit ''gh''],
                hfrag_is_ignored = False, hfrag_is_grouped = True, hfrag_spans = [S2]\<rparr>"

definition G1 :: group where
  "G1 = \<lparr>group_spans = {S1}\<rparr>"

definition G2 :: group where
  "G2 = \<lparr>group_spans = {S1, S2}\<rparr>"

definition G3 :: group where
  "G3 = \<lparr>group_spans = {S2}\<rparr>"

text \<open>
  A result that compares the submission of the scenario with itself: the group \<open>G1\<close>
  holds \<open>S1\<close>, and \<open>S2\<close> is ignored.
\<close>

definition example_result :: "nat result" where
  "example_result =
     \<lparr>res_sub_a = example_sub, res_sub_b = example_sub,
      res_score = \<lparr>score_sub_a = example_sub, score_sub_b = example_sub, score_value = 1\<rparr>,
      res_groups = [G1], res_ignored_spans = [S2]\<rparr>"

text \<open>
  A second submission, and three results from two passes: the pair of the first result
  is met again in the second pass, with a higher score.
\<close>

definition other_sub :: submission where
  "other_sub = \<lparr>sub_path = str_lit ''other'', sub_files = [hello_file]\<rparr>"

definition r_low :: "nat result" where
  "r_low = \<lparr>res_sub_a = example_sub, res_sub_b = other_sub,
             res_score = \<lparr>score_sub_a = example_sub, score_sub_b = other_sub, score_value = 1\<rparr>,
             res_groups = [], res_ignored_spans = []\<rparr>"

definition r_mid :: "nat result" where
  "r_mid = \<lparr>res_sub_a = other_sub, res_sub_b = example_sub,
             res_score = \<lparr>score_sub_a = other_sub, score_sub_b = example_sub, score_value = 5\<rparr>,
             res_groups = [], res_ignored_spans = []\<rparr>"

definition r_high :: "nat result" where
  "r_high = \<lparr>res_sub_a = example_sub, res_sub_b = other_sub,
              res_score = \<lparr>score_sub_a = example_sub, score_sub_b = other_sub, score_value = 9\<rparr>,
              res_groups = [], res_ignored_spans = []\<rparr>"

text \<open>A span that starts before the text, and one that ends after it.\<close>

definition neg_span :: span where
  "neg_span = \<lparr>span_file = example_file, span_start = - 2, span_end = 2\<rparr>"

definition long_span :: span where
  "long_span = \<lparr>span_file = example_file, span_start = 8, span_end = 20\<rparr>"

text \<open>A span whose start lies after its end.\<close>

definition rev_span :: span where
  "rev_span = \<lparr>span_file = example_file, span_start = 6, span_end = 2\<rparr>"

section \<open>Properties of the fragment slicer\<close>

subsection \<open>The slicer after \<^verbatim>\<open>add_span\<close>\<close>


lemma marks_add: "slicing_marks (foldl add_span s spans) =
   slicing_marks s \<union> span_start ` set spans \<union> span_end ` set spans"
  by (induction spans arbitrary: s) (auto simp: add_span_def)

lemma start_add: "start_to_spans (foldl add_span s spans) m =
   start_to_spans s m \<union> {sp \<in> set spans. span_start sp = m}"
  by (induction spans arbitrary: s) (auto simp: add_span_def)

lemma end_add: "end_to_spans (foldl add_span s spans) m =
   end_to_spans s m \<union> {sp \<in> set spans. span_end sp = m}"
  by (induction spans arbitrary: s) (auto simp: add_span_def)

lemma slicer_marks: "slicing_marks (foldl add_span slicer_init spans) =
   span_start ` set spans \<union> span_end ` set spans"
  by (simp add: marks_add slicer_init_def)

lemma slicer_start: "start_to_spans (foldl add_span slicer_init spans) m =
   {sp \<in> set spans. span_start sp = m}"
  by (simp add: start_add slicer_init_def)

lemma slicer_end: "end_to_spans (foldl add_span slicer_init spans) m =
   {sp \<in> set spans. span_end sp = m}"
  by (simp add: end_add slicer_init_def)

lemma concat_splitlines_from: "concat (splitlines_from line s) = line @ s"
  by (induction line s rule: splitlines_from.induct) auto

lemma concat_splitlines: "concat (splitlines s) = s"
  by (simp add: splitlines_def concat_splitlines_from)

lemma frag_text_Fragment: "frag_text (Fragment c sp) = c"
  by (simp add: frag_text_def Fragment_def concat_splitlines)

lemma frag_spans_Fragment: "frag_spans (Fragment c sp) = sp"
  by (simp add: Fragment_def)

lemma py_slice_chars:
  "0 \<le> lo \<Longrightarrow> lo \<le> hi \<Longrightarrow> py_slice content lo hi = chars_between content lo hi"
  unfolding py_slice_def chars_between_def adjust_index_def Let_def
  apply (simp add: min_def)
  apply (intro conjI impI)
  apply (simp_all add: nat_diff_distrib)
  done


lemma active_step:
  assumes le: "\<forall>sp \<in> set spans. span_start sp \<le> span_end sp"
    and tm: "t < m"
    and pts: "\<forall>sp \<in> set spans. (span_start sp \<le> t \<or> m \<le> span_start sp) \<and>
                               (span_end sp \<le> t \<or> m \<le> span_end sp)"
  shows "(active spans t \<union> {sp \<in> set spans. span_start sp = m}) - {sp \<in> set spans. span_end sp = m}
         = active spans m"
  using le tm pts unfolding active_def by force

lemma span_sets_active:
  assumes "\<forall>sp \<in> set spans. span_start sp \<le> span_end sp"
    and "sorted_wrt (<) (t # ms)"
    and "\<forall>sp \<in> set spans. (span_start sp \<le> t \<or> span_start sp \<in> set ms) \<and>
                           (span_end sp \<le> t \<or> span_end sp \<in> set ms)"
    and "acc \<noteq> []" and "last acc = active spans t"
  shows "span_sets (foldl add_span slicer_init spans) acc ms = acc @ map (active spans) ms"
  using assms
proof (induction ms arbitrary: t acc)
  case Nil
  then show ?case by simp
next
  case (Cons m ms)
  have tm: "t < m" using Cons.prems(2) by simp
  have ge: "\<forall>x \<in> set ms. m < x" using Cons.prems(2) by simp
  have pts: "\<forall>sp \<in> set spans. (span_start sp \<le> t \<or> m \<le> span_start sp) \<and>
                               (span_end sp \<le> t \<or> m \<le> span_end sp)"
    using Cons.prems(3) ge by fastforce
  have step: "(last acc \<union> start_to_spans (foldl add_span slicer_init spans) m)
              - end_to_spans (foldl add_span slicer_init spans) m = active spans m"
    using active_step[OF Cons.prems(1) tm pts] by (simp add: slicer_start slicer_end Cons.prems(5))
  have "span_sets (foldl add_span slicer_init spans) (acc @ [active spans m]) ms
        = (acc @ [active spans m]) @ map (active spans) ms"
  proof (rule Cons.IH)
    show "\<forall>sp\<in>set spans. span_start sp \<le> span_end sp" by (rule Cons.prems(1))
    show "sorted_wrt (<) (m # ms)" using Cons.prems(2) by simp
    show "\<forall>sp\<in>set spans. (span_start sp \<le> m \<or> span_start sp \<in> set ms) \<and>
                           (span_end sp \<le> m \<or> span_end sp \<in> set ms)"
      using Cons.prems(3) tm by fastforce
    show "acc @ [active spans m] \<noteq> []" by simp
    show "last (acc @ [active spans m]) = active spans m" by simp
  qed
  then show ?case by (simp add: step)
qed

subsection \<open>The two loops of \<^verbatim>\<open>slice\<close>\<close>


lemma split_fragments_length: "length (split_fragments ord c t ps) = length ps"
  by (induction ps arbitrary: t) auto

lemma split_fragments_nth:
  "i < length ps \<Longrightarrow>
   split_fragments ord c t ps ! i =
     Fragment (py_slice c ((t # map snd ps) ! i) (snd (ps ! i)))
       (py_sorted_reverse (\<lambda>sp. span_end sp - span_start sp) (ord (fst (ps ! i))))"
proof (induction ps arbitrary: t i)
  case Nil
  then show ?case by simp
next
  case (Cons p ps)
  obtain A m where p: "p = (A, m)" by (cases p)
  show ?case
  proof (cases i)
    case 0
    then show ?thesis by (simp add: p)
  next
    case (Suc j)
    then have "j < length ps" using Cons.prems by simp
    from Cons.IH[OF this, of m] show ?thesis by (simp add: p Suc)
  qed
qed

lemma set_py_sorted_reverse: "set (py_sorted_reverse key xs) = set xs"
  by (simp add: py_sorted_reverse_def)

lemma distinct_py_sorted_reverse: "distinct (py_sorted_reverse key xs) = distinct xs"
  by (simp add: py_sorted_reverse_def)

lemma sorted_py_sorted_reverse: "sorted (rev (map key (py_sorted_reverse key xs)))"
  by (simp add: py_sorted_reverse_def rev_map)

lemma sorted_le_last: "sorted xs \<Longrightarrow> x \<in> set xs \<Longrightarrow> x \<le> last xs"
  by (induction xs) auto

lemma close_marks_sorted:
  assumes "sorted_wrt (<) (t # ms)"
  shows "sorted_wrt (<) (t # close_marks content ms)"
proof (cases "ms \<noteq> [] \<and> last ms < int (length content)")
  case True
  have "sorted ms" using assms by (simp add: strict_sorted_imp_sorted)
  then have "\<forall>x \<in> set ms. x < int (length content)"
    using True sorted_le_last[of ms] by fastforce
  moreover have "t < int (length content)"
  proof -
    have "last ms \<in> set ms" using True by simp
    then have "t < last ms" using assms by simp
    then show ?thesis using True by simp
  qed
  ultimately show ?thesis using assms True by (simp add: close_marks_def sorted_wrt_append)
next
  case False
  then show ?thesis using assms by (auto simp: close_marks_def)
qed

lemma close_marks_length:
  "length (close_marks content ms) \<le> Suc (length ms)"
  by (simp add: close_marks_def)

lemma close_marks_nth:
  "i < length ms \<Longrightarrow> close_marks content ms ! i = ms ! i"
  by (simp add: close_marks_def nth_append)

lemma close_marks_last:
  "ms \<noteq> [] \<Longrightarrow> int (length content) \<le> last (close_marks content ms)"
  by (simp add: close_marks_def)

lemma close_marks_last_eq:
  "ms \<noteq> [] \<Longrightarrow> \<forall>m \<in> set ms. m \<le> int (length content) \<Longrightarrow>
   last (close_marks content ms) = int (length content)"
  using last_in_set[of ms] by (fastforce simp: close_marks_def)


lemma marks_finite: "finite (slicing_marks (foldl add_span slicer_init spans) - {0})"
  by (simp add: slicer_marks)

lemma sorted_marks_props:
  assumes "nonneg_spans spans"
  defines "ms \<equiv> sorted_list_of_set (slicing_marks (foldl add_span slicer_init spans) - {0})"
  shows "sorted_wrt (<) (0 # ms)"
    and "\<forall>sp \<in> set spans. (span_start sp \<le> 0 \<or> span_start sp \<in> set ms) \<and>
                           (span_end sp \<le> 0 \<or> span_end sp \<in> set ms)"
proof -
  have set_ms: "set ms = slicing_marks (foldl add_span slicer_init spans) - {0}"
    unfolding ms_def using marks_finite by simp
  have "\<forall>x \<in> set ms. 0 < x"
    using assms(1) unfolding set_ms slicer_marks nonneg_spans_def by force
  moreover have "sorted_wrt (<) ms"
    unfolding ms_def by (rule strict_sorted_list_of_set)
  ultimately show "sorted_wrt (<) (0 # ms)" by simp
  show "\<forall>sp \<in> set spans. (span_start sp \<le> 0 \<or> span_start sp \<in> set ms) \<and>
                           (span_end sp \<le> 0 \<or> span_end sp \<in> set ms)"
    unfolding set_ms slicer_marks by auto
qed

lemma initial_active:
  assumes "nonneg_spans spans"
  shows "start_to_spans (foldl add_span slicer_init spans) 0
         - end_to_spans (foldl add_span slicer_init spans) 0 = active spans 0"
  using assms unfolding slicer_start slicer_end active_def nonneg_spans_def by force

lemma span_sets_slicer:
  assumes "nonneg_spans spans"
  shows "span_sets (foldl add_span slicer_init spans)
           [start_to_spans (foldl add_span slicer_init spans) 0
            - end_to_spans (foldl add_span slicer_init spans) 0]
           (sorted_list_of_set (slicing_marks (foldl add_span slicer_init spans) - {0}))
         = map (active spans)
             (0 # sorted_list_of_set (slicing_marks (foldl add_span slicer_init spans) - {0}))"
proof -
  have le: "\<forall>sp \<in> set spans. span_start sp \<le> span_end sp"
    using assms by (simp add: nonneg_spans_def)
  show ?thesis
    unfolding initial_active[OF assms]
    using span_sets_active[OF le sorted_marks_props[OF assms], of "[active spans 0]"]
    by simp
qed


lemma no_marks_spans:
  assumes "nonneg_spans spans"
    and "slicing_marks (foldl add_span slicer_init spans) - {0} = {}"
  shows "active spans t = {}"
proof -
  have "\<forall>sp \<in> set spans. span_start sp = 0 \<and> span_end sp = 0"
    using assms(2) unfolding slicer_marks by auto
  then show ?thesis unfolding active_def by auto
qed

lemma cut_points_marks:
  assumes "slicing_marks (foldl add_span slicer_init spans) - {0} \<noteq> {}"
  shows "cut_points content spans =
    0 # close_marks content (sorted_list_of_set (slicing_marks (foldl add_span slicer_init spans) - {0}))"
  using assms by (simp add: cut_points_def)

lemma fragmentize_frags:
  assumes fs: "fs (file_path f) = Some content"
    and nn: "nonneg_spans spans"
  shows "\<exists>frags. fragmentize ord fs f spans = Inr frags \<and>
           length (cut_points content spans) = Suc (length frags) \<and>
           (\<forall>i<length frags.
              frag_text (frags ! i) =
                chars_between content (cut_points content spans ! i) (cut_points content spans ! Suc i) \<and>
              (frag_spans (frags ! i) = [] \<and> active spans (cut_points content spans ! i) = {} \<or>
               frag_spans (frags ! i) =
                 py_sorted_reverse (\<lambda>sp. span_end sp - span_start sp)
                   (ord (active spans (cut_points content spans ! i)))))"
proof (cases "slicing_marks (foldl add_span slicer_init spans) - {0} = {}")
  case True
  have frag: "fragmentize ord fs f spans = Inr [Fragment content []]"
    by (simp add: fragmentize_def slice_def fs True)
  have cp: "cut_points content spans = [0, int (length content)]"
    by (simp add: cut_points_def True)
  show ?thesis
    unfolding frag cp
    by (simp add: frag_text_Fragment frag_spans_Fragment chars_between_def
        no_marks_spans[OF nn True])
next
  case False
  define ms where "ms = sorted_list_of_set (slicing_marks (foldl add_span slicer_init spans) - {0})"
  define cm where "cm = close_marks content ms"
  define b where "b = 0 # cm"
  define ps where "ps = zip (map (active spans) (0 # ms)) cm"
  have cp: "cut_points content spans = b"
    using cut_points_marks[OF False] by (simp add: b_def cm_def ms_def)
  have frag: "fragmentize ord fs f spans = Inr (split_fragments ord content 0 ps)"
    using span_sets_slicer[OF nn] False
    by (simp add: fragmentize_def slice_def fs Let_def ps_def cm_def ms_def)
  have len_cm: "length cm \<le> Suc (length ms)"
    unfolding cm_def by (rule close_marks_length)
  have len_ps: "length ps = length cm"
    using len_cm by (simp add: ps_def)
  have snd_ps: "map snd ps = cm"
    using len_cm by (simp add: ps_def map_snd_zip_take)
  have sorted_b: "sorted_wrt (<) b"
    unfolding b_def cm_def
    using close_marks_sorted[OF sorted_marks_props(1)[OF nn]] by (simp add: ms_def)
  have b0: "\<forall>x \<in> set b. 0 \<le> x"
    using sorted_b by (auto simp: b_def)
  have nth_b: "(0 # ms) ! i = b ! i" if "i < length cm" for i
  proof (cases i)
    case 0
    then show ?thesis by (simp add: b_def)
  next
    case (Suc j)
    then have "j < length ms" using that len_cm by simp
    then show ?thesis by (simp add: Suc b_def cm_def close_marks_nth)
  qed
  have each: "frag_text (split_fragments ord content 0 ps ! i) =
                chars_between content (b ! i) (b ! Suc i) \<and>
              frag_spans (split_fragments ord content 0 ps ! i) =
                 py_sorted_reverse (\<lambda>sp. span_end sp - span_start sp) (ord (active spans (b ! i)))"
    if i: "i < length cm" for i
  proof -
    have ips: "i < length ps" using i len_ps by simp
    have lo: "(0 # map snd ps) ! i = b ! i" by (simp add: snd_ps b_def)
    have hi: "snd (ps ! i) = b ! Suc i"
      using ips snd_ps by (metis b_def nth_Cons_Suc nth_map)
    have "i < length (0 # ms)" using i len_cm by simp
    then have A: "fst (ps ! i) = active spans (b ! i)"
      using ips nth_b[OF i] unfolding ps_def by (simp del: list.map)
    have "b ! i \<le> b ! Suc i"
      using sorted_b i sorted_wrt_nth_less[of "(<)" b i "Suc i"] by (simp add: b_def)
    moreover have "0 \<le> b ! i"
    proof -
      have "i < length b" using i by (simp add: b_def)
      then have "b ! i \<in> set b" by (rule nth_mem)
      then show ?thesis using b0 by blast
    qed
    ultimately have "py_slice content (b ! i) (b ! Suc i) = chars_between content (b ! i) (b ! Suc i)"
      by (rule py_slice_chars[rotated])
    then show ?thesis
      by (simp add: split_fragments_nth[OF ips] lo hi A frag_text_Fragment frag_spans_Fragment)
  qed
  show ?thesis
    unfolding frag cp
    using each by (simp add: split_fragments_length len_ps b_def)
qed

subsection \<open>The cut points\<close>


lemma chars_between_append:
  assumes "0 \<le> a" "a \<le> b" "b \<le> d"
  shows "chars_between c a b @ chars_between c b d = chars_between c a d"
proof -
  have "nat (d - a) = nat (b - a) + nat (d - b)" using assms by simp
  moreover have "drop (nat (b - a)) (drop (nat a) c) = drop (nat b) c"
    using assms by (simp add: nat_diff_distrib)
  ultimately show ?thesis
    unfolding chars_between_def by (simp add: take_add)
qed

lemma concat_chars_between:
  "sorted (t # bs) \<Longrightarrow> 0 \<le> t \<Longrightarrow>
   concat (map (\<lambda>(lo, hi). chars_between c lo hi) (zip (t # bs) bs))
     = chars_between c t (last (t # bs))"
proof (induction bs arbitrary: t)
  case Nil
  then show ?case by (simp add: chars_between_def)
next
  case (Cons m bs)
  have tm: "t \<le> m" using Cons.prems by simp
  have "sorted (m # bs)" using Cons.prems by simp
  moreover have "0 \<le> m" using tm Cons.prems by simp
  ultimately have IH: "concat (map (\<lambda>(lo, hi). chars_between c lo hi) (zip (m # bs) bs))
     = chars_between c m (last (m # bs))" by (rule Cons.IH)
  have "m \<le> last (m # bs)"
    using \<open>sorted (m # bs)\<close> by (cases bs) (auto dest: sorted_le_last[of "m # bs"])
  then show ?case
    using IH chars_between_append[OF Cons.prems(2) tm, of "last (m # bs)" c] by simp
qed

lemma chars_between_all: "int (length c) \<le> hi \<Longrightarrow> chars_between c 0 hi = c"
  by (simp add: chars_between_def)

lemma cut_points_props:
  assumes nn: "nonneg_spans spans"
  shows "sorted (cut_points content spans)"
    and "hd (cut_points content spans) = 0"
    and "int (length content) \<le> last (cut_points content spans)"
    and "sorted_wrt (<) (cut_points content spans) \<or> content = []"
    and "\<forall>sp \<in> set spans. span_start sp \<in> set (cut_points content spans) \<and>
                            span_end sp \<in> set (cut_points content spans)"
proof -
  define M where "M = slicing_marks (foldl add_span slicer_init spans) - {0}"
  define ms where "ms = sorted_list_of_set M"
  have fin: "finite M" unfolding M_def by (rule marks_finite)
  have set_ms: "set ms = M" unfolding ms_def using fin by simp
  have strict: "sorted_wrt (<) (0 # close_marks content ms)"
    using close_marks_sorted[OF sorted_marks_props(1)[OF nn]] by (simp add: ms_def M_def)
  have cp: "cut_points content spans =
      (if M = {} then [0, int (length content)] else 0 # close_marks content ms)"
    by (simp add: cut_points_def M_def ms_def)
  have ms_ne: "ms \<noteq> []" if "M \<noteq> {}" using that set_ms by auto
  show "sorted (cut_points content spans)"
    using strict by (auto simp: cp dest: strict_sorted_imp_sorted)
  show "hd (cut_points content spans) = 0" by (simp add: cp)
  show "int (length content) \<le> last (cut_points content spans)"
  proof (cases "M = {}")
    case True
    then show ?thesis by (simp add: cp)
  next
    case False
    have "close_marks content ms \<noteq> []" using ms_ne[OF False] by (auto simp: close_marks_def)
    then show ?thesis using close_marks_last[OF ms_ne[OF False], of content] False by (simp add: cp)
  qed
  show "sorted_wrt (<) (cut_points content spans) \<or> content = []"
    using strict by (auto simp: cp)
  show "\<forall>sp \<in> set spans. span_start sp \<in> set (cut_points content spans) \<and>
                            span_end sp \<in> set (cut_points content spans)"
  proof
    fix sp assume sp: "sp \<in> set spans"
    have pts: "(span_start sp = 0 \<or> span_start sp \<in> M) \<and> (span_end sp = 0 \<or> span_end sp \<in> M)"
      using sp unfolding M_def slicer_marks by auto
    have sub: "set ms \<subseteq> set (close_marks content ms)" by (auto simp: close_marks_def)
    show "span_start sp \<in> set (cut_points content spans) \<and>
          span_end sp \<in> set (cut_points content spans)"
      using pts sub set_ms by (auto simp: cp)
  qed
qed

lemma cut_points_last:
  assumes "\<forall>sp \<in> set spans. well_formed content sp"
  shows "last (cut_points content spans) = int (length content)"
proof -
  define M where "M = slicing_marks (foldl add_span slicer_init spans) - {0}"
  define ms where "ms = sorted_list_of_set M"
  have fin: "finite M" unfolding M_def by (rule marks_finite)
  have set_ms: "set ms = M" unfolding ms_def using fin by simp
  have le: "\<forall>m \<in> set ms. m \<le> int (length content)"
    using assms unfolding set_ms M_def slicer_marks well_formed_def by auto
  show ?thesis
  proof (cases "M = {}")
    case True
    then show ?thesis by (simp add: cut_points_def M_def)
  next
    case False
    then have ne: "ms \<noteq> []" using set_ms by auto
    have "close_marks content ms \<noteq> []" using ne by (auto simp: close_marks_def)
    then show ?thesis
      using close_marks_last_eq[OF ne le] False by (simp add: cut_points_def M_def ms_def)
  qed
qed

lemma well_formed_nonneg: "\<forall>sp \<in> set spans. well_formed content sp \<Longrightarrow> nonneg_spans spans"
  by (simp add: well_formed_def nonneg_spans_def)

lemma concat_frag_text:
  assumes len: "length b = Suc (length frags)"
    and sorted: "sorted b" and hd0: "hd b = 0" and last: "int (length content) \<le> last b"
    and texts: "\<forall>i<length frags. frag_text (frags ! i) = chars_between content (b ! i) (b ! Suc i)"
  shows "concat (map frag_text frags) = content"
proof -
  obtain bs where b: "b = 0 # bs" using len hd0 by (cases b) auto
  have "map frag_text frags = map (\<lambda>(lo, hi). chars_between content lo hi) (zip (0 # bs) bs)"
    using len texts by (auto simp: b list_eq_iff_nth_eq)
  then have "concat (map frag_text frags) = chars_between content 0 (last (0 # bs))"
    using concat_chars_between[of 0 bs content] sorted by (simp add: b)
  then show ?thesis using last by (simp add: b chars_between_all)
qed


lemma find_interval:
  "sorted b \<Longrightarrow> b \<noteq> [] \<Longrightarrow> hd b \<le> (t::int) \<Longrightarrow> t < last b \<Longrightarrow>
   \<exists>i. Suc i < length b \<and> b ! i \<le> t \<and> t < b ! Suc i"
proof (induction b)
  case Nil
  then show ?case by simp
next
  case (Cons x b)
  show ?case
  proof (cases b)
    case Nil
    then show ?thesis using Cons.prems by simp
  next
    case (Cons y ys)
    show ?thesis
    proof (cases "t < y")
      case True
      then have "Suc 0 < length (x # b) \<and> (x # b) ! 0 \<le> t \<and> t < (x # b) ! Suc 0"
        using Cons.prems Cons by simp
      then show ?thesis by blast
    next
      case False
      have "sorted b" "b \<noteq> []" "hd b \<le> t" "t < last b"
        using Cons.prems Cons False by auto
      then obtain i where "Suc i < length b \<and> b ! i \<le> t \<and> t < b ! Suc i"
        using Cons.IH by blast
      then have "Suc (Suc i) < length (x # b) \<and> (x # b) ! Suc i \<le> t \<and> t < (x # b) ! Suc (Suc i)"
        by simp
      then show ?thesis by blast
    qed
  qed
qed

lemma unique_interval:
  assumes "sorted b" "Suc i < length b" "Suc j < length b"
    and "b ! i \<le> (t::int)" "t < b ! Suc i" "b ! j \<le> t" "t < b ! Suc j"
  shows "i = j"
proof (rule ccontr)
  assume "i \<noteq> j"
  then consider "Suc i \<le> j" | "Suc j \<le> i" by linarith
  then show False
  proof cases
    case 1
    then have "b ! Suc i \<le> b ! j" using assms(1,3) by (simp add: sorted_nth_mono)
    then show False using assms by simp
  next
    case 2
    then have "b ! Suc j \<le> b ! i" using assms(1,2) by (simp add: sorted_nth_mono)
    then show False using assms by simp
  qed
qed

lemma no_cut_inside:
  assumes "sorted b" "Suc i < length b" "x \<in> set b"
  shows "x \<le> b ! i \<or> b ! Suc i \<le> (x::int)"
proof -
  obtain j where j: "j < length b" "x = b ! j" using assms(3) by (auto simp: in_set_conv_nth)
  show ?thesis
  proof (cases "j \<le> i")
    case True
    then have "b ! j \<le> b ! i" using assms(1,2) by (simp add: sorted_nth_mono)
    then show ?thesis by (simp add: j)
  next
    case False
    then have "Suc i \<le> j" by simp
    then have "b ! Suc i \<le> b ! j" using assms(1) j(1) by (simp add: sorted_nth_mono)
    then show ?thesis by (simp add: j)
  qed
qed

lemma active_in_interval:
  assumes "sorted b" "Suc i < length b" "b ! i \<le> t" "t < b ! Suc i"
    and "\<forall>sp \<in> set spans. span_start sp \<in> set b \<and> span_end sp \<in> set b"
  shows "active spans (b ! i) = active spans t"
proof -
  have "span_start sp \<le> b ! i \<longleftrightarrow> span_start sp \<le> t" if "sp \<in> set spans" for sp
    using no_cut_inside[OF assms(1,2), of "span_start sp"] assms(3,4,5) that by fastforce
  moreover have "b ! i < span_end sp \<longleftrightarrow> t < span_end sp" if "sp \<in> set spans" for sp
    using no_cut_inside[OF assms(1,2), of "span_end sp"] assms(3,4,5) that by fastforce
  ultimately show ?thesis unfolding active_def by auto
qed

lemma iterates_sorted_spans:
  assumes "iterates ord U" "A \<subseteq> U"
  shows "set (py_sorted_reverse key (ord A)) = A" and "distinct (py_sorted_reverse key (ord A))"
  using assms by (auto simp: iterates_def set_py_sorted_reverse distinct_py_sorted_reverse)

lemma active_subset: "active spans t \<subseteq> set spans"
  by (auto simp: active_def)

lemma fragmentize_spans:
  assumes fs: "fs (file_path f) = Some content"
    and nn: "nonneg_spans spans"
    and it: "iterates ord (set spans)"
  shows "\<exists>frags. fragmentize ord fs f spans = Inr frags \<and>
           length (cut_points content spans) = Suc (length frags) \<and>
           (\<forall>i<length frags.
              set (frag_spans (frags ! i)) = active spans (cut_points content spans ! i) \<and>
              distinct (frag_spans (frags ! i)) \<and>
              sorted (rev (map (\<lambda>sp. span_end sp - span_start sp) (frag_spans (frags ! i)))))"
proof -
  obtain frags where fr: "fragmentize ord fs f spans = Inr frags"
    and len: "length (cut_points content spans) = Suc (length frags)"
    and each: "\<forall>i<length frags.
              frag_text (frags ! i) =
                chars_between content (cut_points content spans ! i) (cut_points content spans ! Suc i) \<and>
              (frag_spans (frags ! i) = [] \<and> active spans (cut_points content spans ! i) = {} \<or>
               frag_spans (frags ! i) =
                 py_sorted_reverse (\<lambda>sp. span_end sp - span_start sp)
                   (ord (active spans (cut_points content spans ! i))))"
    using fragmentize_frags[where fs=fs and f=f and ord=ord, OF fs nn] by blast
  have "set (frag_spans (frags ! i)) = active spans (cut_points content spans ! i) \<and>
        distinct (frag_spans (frags ! i)) \<and>
        sorted (rev (map (\<lambda>sp. span_end sp - span_start sp) (frag_spans (frags ! i))))"
    if "i < length frags" for i
  proof -
    from each that consider
      "frag_spans (frags ! i) = [] \<and> active spans (cut_points content spans ! i) = {}"
      | "frag_spans (frags ! i) =
                 py_sorted_reverse (\<lambda>sp. span_end sp - span_start sp)
                   (ord (active spans (cut_points content spans ! i)))" by blast
    then show ?thesis
    proof cases
      case 1
      then show ?thesis by simp
    next
      case 2
      show ?thesis
        unfolding 2
        using iterates_sorted_spans[OF it active_subset] sorted_py_sorted_reverse by blast
    qed
  qed
  then show ?thesis using fr len by blast
qed

subsection \<open>The scenario with two overlapping spans\<close>


lemma S1_neq_S2: "S1 \<noteq> S2" by (simp add: S1_def S2_def)

lemma example_marks: "slicing_marks (foldl add_span slicer_init [S1, S2]) = {2, 4, 6, 8}"
  by (auto simp: add_span_def slicer_init_def S1_def S2_def)

lemma example_sorted: "sorted_list_of_set ({2, 4, 6, 8} - {0::int}) = [2, 4, 6, 8]"
  by code_simp

lemma example_read: "example_fs (file_path example_file) = Some (str_lit ''abcdefghij'')"
  by (simp add: example_fs_def example_file_def)

lemma example_sets:
  "span_sets (foldl add_span slicer_init [S1, S2])
     [start_to_spans (foldl add_span slicer_init [S1, S2]) 0 - end_to_spans (foldl add_span slicer_init [S1, S2]) 0]
     [2, 4, 6, 8] = [{}, {S1}, {S1, S2}, {S2}, {}]"
  using S1_neq_S2 by (auto simp: add_span_def slicer_init_def S1_def S2_def)

lemma example_slices:
  "py_slice (str_lit ''abcdefghij'') 0 2 = str_lit ''ab''"
  "py_slice (str_lit ''abcdefghij'') 2 4 = str_lit ''cd''"
  "py_slice (str_lit ''abcdefghij'') 4 6 = str_lit ''ef''"
  "py_slice (str_lit ''abcdefghij'') 6 8 = str_lit ''gh''"
  "py_slice (str_lit ''abcdefghij'') 8 10 = str_lit ''ij''"
  by (simp_all add: py_slice_def adjust_index_def str_lit_def)

lemma example_fragmentize:
  "fragmentize ord example_fs example_file [S1, S2] =
     Inr [Fragment (str_lit ''ab'') (py_sorted_reverse (\<lambda>sp. span_end sp - span_start sp) (ord {})),
          Fragment (str_lit ''cd'') (py_sorted_reverse (\<lambda>sp. span_end sp - span_start sp) (ord {S1})),
          Fragment (str_lit ''ef'') (py_sorted_reverse (\<lambda>sp. span_end sp - span_start sp) (ord {S1, S2})),
          Fragment (str_lit ''gh'') (py_sorted_reverse (\<lambda>sp. span_end sp - span_start sp) (ord {S2})),
          Fragment (str_lit ''ij'') (py_sorted_reverse (\<lambda>sp. span_end sp - span_start sp) (ord {}))]"
proof -
  have len: "length (str_lit ''abcdefghij'') = 10" by (simp add: str_lit_def)
  have cm: "close_marks (str_lit ''abcdefghij'') [2, 4, 6, 8] = [2, 4, 6, 8, 10]"
    by (simp add: close_marks_def len)
  have ne: "{2, 4, 6, 8} - {0::int} \<noteq> {}" by simp
  show ?thesis
    unfolding fragmentize_def slice_def Let_def example_marks example_read example_sorted
      example_sets cm
    using ne by (simp add: example_slices cm del: Diff_insert0)
qed

lemma iterates_order_of_list: "iterates (order_of_list xs) (set xs)"
  by (auto simp: iterates_def order_of_list_def)

lemma iterates_empty:
  assumes "iterates ord U"
  shows "ord {} = []"
proof -
  have "set (ord {}) = {}" using assms unfolding iterates_def by blast
  then show ?thesis by simp
qed

lemma iterates_single:
  assumes "iterates ord U" "x \<in> U"
  shows "ord {x} = [x]"
proof -
  have "set (ord {x}) = {x}" "distinct (ord {x})" using assms by (auto simp: iterates_def)
  then have "length (ord {x}) = 1" using distinct_card[of "ord {x}"] by simp
  then obtain a where "ord {x} = [a]" by (cases "ord {x}") auto
  then show ?thesis using \<open>set (ord {x}) = {x}\<close> by simp
qed

lemma iterates_pair:
  assumes "iterates ord U" "x \<in> U" "y \<in> U" "x \<noteq> y"
  shows "ord {x, y} = [x, y] \<or> ord {x, y} = [y, x]"
proof -
  have s: "set (ord {x, y}) = {x, y}" and d: "distinct (ord {x, y})"
    using assms by (auto simp: iterates_def)
  have "length (ord {x, y}) = 2"
    using distinct_card[OF d] assms(4) by (simp add: s)
  then obtain a b where ab: "ord {x, y} = [a, b]"
    by (cases "ord {x, y}") (auto simp: length_Suc_conv)
  then have "{a, b} = {x, y}" using s by simp
  then show ?thesis unfolding ab by (auto simp: doubleton_eq_iff)
qed

lemma example_len: "length (str_lit ''abcdefghij'') = 10"
  by (simp add: str_lit_def)

lemma example_well_formed:
  "well_formed (str_lit ''abcdefghij'') S1" "well_formed (str_lit ''abcdefghij'') S2"
  by (simp_all add: well_formed_def S1_def S2_def example_len)

lemma example_cut_points: "cut_points (str_lit ''abcdefghij'') [S1, S2] = [0, 2, 4, 6, 8, 10]"
proof -
  have ne: "{2, 4, 6, 8} - {0::int} \<noteq> {}" by simp
  show ?thesis
    unfolding cut_points_def Let_def example_marks example_sorted
    using ne by (simp add: close_marks_def example_len del: Diff_insert0)
qed

lemma example_active: "active [S1, S2] 5 = {S1, S2}"
  by (auto simp: active_def S1_def S2_def)

lemma splitlines_two: "\<not> is_linebreak a \<Longrightarrow> splitlines [a, b] = [[a, b]]"
  by (auto simp: splitlines_def is_linebreak_def)

lemma example_lines:
  "splitlines (str_lit ''ab'') = [str_lit ''ab'']"
  "splitlines (str_lit ''cd'') = [str_lit ''cd'']"
  "splitlines (str_lit ''ef'') = [str_lit ''ef'']"
  "splitlines (str_lit ''gh'') = [str_lit ''gh'']"
  "splitlines (str_lit ''ij'') = [str_lit ''ij'']"
  by (simp_all add: str_lit_def splitlines_two is_linebreak_def)

lemma sorted_equal_keys:
  "key x = key y \<Longrightarrow> py_sorted_reverse key [x, y] = [x, y]"
  by (simp add: py_sorted_reverse_def)

lemma sorted_one: "py_sorted_reverse key [x] = [x]" "py_sorted_reverse key [] = []"
  by (simp_all add: py_sorted_reverse_def)

lemma example_keys: "span_end S1 - span_start S1 = span_end S2 - span_start S2"
  by (simp add: S1_def S2_def)

lemma splitlines_plain: "\<forall>c \<in> set s. \<not> is_linebreak c \<Longrightarrow> s \<noteq> [] \<Longrightarrow> splitlines_from line s = [line @ s]"
  by (induction line s rule: splitlines_from.induct) (auto simp: is_linebreak_def)

subsection \<open>The partition law\<close>

text \<open>
  Claim C1. For a readable file and spans with \<open>0 \<le> start \<le> end \<le> len\<close>, \<^verbatim>\<open>fragmentize\<close>
  returns fragments, one per pair of neighbouring cut points. The cut points ascend from
  0 to the length of the text (strictly, unless the text is empty), so the offset ranges
  of the fragments are in left-to-right order, contiguous, do not overlap and cover
  \<open>[0, len)\<close>; fragment \<open>i\<close> holds exactly the characters of its range, and the texts of
  the fragments, joined in order, are the text of the file.
\<close>

theorem slice_partition:
  assumes fs: "fs (file_path f) = Some content"
    and wf: "\<forall>sp \<in> set spans. well_formed content sp"
  shows "\<exists>frags. fragmentize ord fs f spans = Inr frags \<and>
           length (cut_points content spans) = Suc (length frags) \<and>
           sorted (cut_points content spans) \<and>
           (sorted_wrt (<) (cut_points content spans) \<or> content = []) \<and>
           hd (cut_points content spans) = 0 \<and>
           last (cut_points content spans) = int (length content) \<and>
           (\<forall>i<length frags.
              frag_text (frags ! i) =
                chars_between content (cut_points content spans ! i) (cut_points content spans ! Suc i)) \<and>
           concat (map frag_text frags) = content"
proof -
  have nn: "nonneg_spans spans" using wf by (rule well_formed_nonneg)
  obtain frags where fr: "fragmentize ord fs f spans = Inr frags"
    and len: "length (cut_points content spans) = Suc (length frags)"
    and each: "\<forall>i<length frags.
              frag_text (frags ! i) =
                chars_between content (cut_points content spans ! i) (cut_points content spans ! Suc i)"
    using fragmentize_frags[where fs=fs and f=f and ord=ord, OF fs nn] by blast
  note cp = cut_points_props[OF nn, of content]
  have last: "last (cut_points content spans) = int (length content)"
    using wf by (rule cut_points_last)
  have "concat (map frag_text frags) = content"
    using concat_frag_text[OF len cp(1) cp(2) cp(3) each] .
  then show ?thesis using fr len cp(1) cp(4) cp(2) last each by blast
qed

text \<open>The scenario of the specification satisfies the hypotheses of C1.\<close>

theorem slice_partition_witness:
  "example_fs (file_path example_file) = Some (str_lit ''abcdefghij'') \<and>
   well_formed (str_lit ''abcdefghij'') S1 \<and> well_formed (str_lit ''abcdefghij'') S2 \<and>
   (\<exists>frags. fragmentize (order_of_list [S1, S2]) example_fs example_file [S1, S2] = Inr frags \<and>
      length frags = 5 \<and>
      frag_text (frags ! 2) = chars_between (str_lit ''abcdefghij'') 4 6 \<and>
      concat (map frag_text frags) = str_lit ''abcdefghij'')"
proof -
  have wf: "\<forall>sp \<in> set [S1, S2]. well_formed (str_lit ''abcdefghij'') sp"
    using example_well_formed by simp
  show ?thesis
    using slice_partition[where ord="order_of_list [S1, S2]" and fs=example_fs and f=example_file, OF example_read wf]
      example_read example_well_formed
    by (auto simp: example_cut_points)
qed

subsection \<open>The spans of a fragment\<close>

text \<open>
  Claim C2. For a readable file, well-formed spans and an iteration order that enumerates
  every set of input spans, every offset \<open>t\<close> of the text lies in the range of exactly one
  fragment, and the spans attached to that fragment are exactly the input spans with
  \<open>start \<le> t < end\<close>, each once. No span with \<open>start = end\<close> is attached to any fragment.
\<close>

theorem slice_active_spans:
  assumes fs: "fs (file_path f) = Some content"
    and wf: "\<forall>sp \<in> set spans. well_formed content sp"
    and it: "iterates ord (set spans)"
  shows "\<exists>frags. fragmentize ord fs f spans = Inr frags \<and>
           length (cut_points content spans) = Suc (length frags) \<and>
           (\<forall>t. 0 \<le> t \<and> t < int (length content) \<longrightarrow>
              (\<exists>!i. i < length frags \<and> cut_points content spans ! i \<le> t \<and>
                     t < cut_points content spans ! Suc i) \<and>
              (\<forall>i<length frags.
                 cut_points content spans ! i \<le> t \<and> t < cut_points content spans ! Suc i \<longrightarrow>
                 set (frag_spans (frags ! i)) = active spans t \<and> distinct (frag_spans (frags ! i)))) \<and>
           (\<forall>fr \<in> set frags. \<forall>sp \<in> set (frag_spans fr). span_start sp \<noteq> span_end sp)"
proof -
  have nn: "nonneg_spans spans" using wf by (rule well_formed_nonneg)
  obtain frags where fr: "fragmentize ord fs f spans = Inr frags"
    and len: "length (cut_points content spans) = Suc (length frags)"
    and each: "\<forall>i<length frags.
              set (frag_spans (frags ! i)) = active spans (cut_points content spans ! i) \<and>
              distinct (frag_spans (frags ! i)) \<and>
              sorted (rev (map (\<lambda>sp. span_end sp - span_start sp) (frag_spans (frags ! i))))"
    using fragmentize_spans[where fs=fs and f=f and ord=ord, OF fs nn it] by blast
  note cp = cut_points_props[OF nn, of content]
  define b where "b = cut_points content spans"
  have sorted_b: "sorted b" and hd_b: "hd b = 0" and last_b: "int (length content) \<le> last b"
    and pts: "\<forall>sp \<in> set spans. span_start sp \<in> set b \<and> span_end sp \<in> set b"
    and len_b: "length b = Suc (length frags)"
    using cp len by (simp_all add: b_def)
  have at: "(\<exists>!i. i < length frags \<and> b ! i \<le> t \<and> t < b ! Suc i) \<and>
            (\<forall>i<length frags. b ! i \<le> t \<and> t < b ! Suc i \<longrightarrow>
                 set (frag_spans (frags ! i)) = active spans t \<and> distinct (frag_spans (frags ! i)))"
    if t: "0 \<le> t \<and> t < int (length content)" for t
  proof
    have "b \<noteq> []" using len_b by auto
    moreover have "hd b \<le> t" "t < last b" using t hd_b last_b by auto
    ultimately obtain i where i: "Suc i < length b" "b ! i \<le> t" "t < b ! Suc i"
      using find_interval[OF sorted_b] by blast
    show "\<exists>!i. i < length frags \<and> b ! i \<le> t \<and> t < b ! Suc i"
    proof (rule ex1I[of _ i])
      show "i < length frags \<and> b ! i \<le> t \<and> t < b ! Suc i" using i len_b by simp
    next
      fix j assume "j < length frags \<and> b ! j \<le> t \<and> t < b ! Suc j"
      then show "j = i"
        using unique_interval[OF sorted_b, of j i t] i len_b by simp
    qed
    show "\<forall>i<length frags. b ! i \<le> t \<and> t < b ! Suc i \<longrightarrow>
                 set (frag_spans (frags ! i)) = active spans t \<and> distinct (frag_spans (frags ! i))"
    proof (intro allI impI)
      fix i assume i: "i < length frags" and bt: "b ! i \<le> t \<and> t < b ! Suc i"
      have "active spans (b ! i) = active spans t"
        using active_in_interval[OF sorted_b _ _ _ pts, of i t] i bt len_b by simp
      then show "set (frag_spans (frags ! i)) = active spans t \<and> distinct (frag_spans (frags ! i))"
        using each i by (simp add: b_def)
    qed
  qed
  have zero: "\<forall>fr \<in> set frags. \<forall>sp \<in> set (frag_spans fr). span_start sp \<noteq> span_end sp"
  proof (intro ballI)
    fix fr sp assume "fr \<in> set frags" and sp: "sp \<in> set (frag_spans fr)"
    then obtain i where i: "i < length frags" "fr = frags ! i" by (auto simp: in_set_conv_nth)
    then have "sp \<in> active spans (cut_points content spans ! i)" using each sp by simp
    then show "span_start sp \<noteq> span_end sp" by (auto simp: active_def)
  qed
  show ?thesis using fr len at zero unfolding b_def by blast
qed

text \<open>The scenario of the specification satisfies the hypotheses of C2.\<close>

theorem slice_active_spans_witness:
  "example_fs (file_path example_file) = Some (str_lit ''abcdefghij'') \<and>
   well_formed (str_lit ''abcdefghij'') S1 \<and> well_formed (str_lit ''abcdefghij'') S2 \<and>
   iterates (order_of_list [S1, S2]) (set [S1, S2]) \<and>
   (\<exists>frags. fragmentize (order_of_list [S1, S2]) example_fs example_file [S1, S2] = Inr frags \<and>
      length frags = 5 \<and>
      set (frag_spans (frags ! 2)) = {S1, S2})"
proof -
  have wf: "\<forall>sp \<in> set [S1, S2]. well_formed (str_lit ''abcdefghij'') sp"
    using example_well_formed by simp
  have it: "iterates (order_of_list [S1, S2]) (set [S1, S2])" by (rule iterates_order_of_list)
  obtain frags where fr: "fragmentize (order_of_list [S1, S2]) example_fs example_file [S1, S2] = Inr frags"
    and len: "length (cut_points (str_lit ''abcdefghij'') [S1, S2]) = Suc (length frags)"
    and at: "\<forall>t. 0 \<le> t \<and> t < int (length (str_lit ''abcdefghij'')) \<longrightarrow>
              (\<forall>i<length frags.
                 cut_points (str_lit ''abcdefghij'') [S1, S2] ! i \<le> t \<and>
                 t < cut_points (str_lit ''abcdefghij'') [S1, S2] ! Suc i \<longrightarrow>
                 set (frag_spans (frags ! i)) = active [S1, S2] t \<and> distinct (frag_spans (frags ! i)))"
    using slice_active_spans[where ord="order_of_list [S1, S2]" and fs=example_fs and f=example_file, OF example_read wf it] by blast
  have l5: "length frags = 5" using len by (simp add: example_cut_points)
  have "set (frag_spans (frags ! 2)) = active [S1, S2] 5"
    using at[rule_format, of 5 2] l5 by (simp add: example_cut_points example_len)
  then show ?thesis using fr l5 example_read example_well_formed it
    by (auto simp: example_active)
qed

subsection \<open>The scenario with two overlapping spans\<close>

text \<open>
  Claim C3, as stated, fixes the spans of the fragment \<^verbatim>\<open>ef\<close> to \<open>[S1, S2]\<close>, the order of
  insertion. The slicer keeps the spans of a fragment in a set, and \<^verbatim>\<open>sorted\<close> is stable,
  so two spans of equal length come out in the order in which the set is iterated. With
  an iteration order that visits \<open>S2\<close> first the fragment carries \<open>[S2, S1]\<close>.
\<close>

theorem example_order_counterexample:
  "iterates (order_of_list [S2, S1]) (set [S1, S2]) \<and>
   fragmentize (order_of_list [S2, S1]) example_fs example_file [S1, S2] =
     Inr [\<lparr>frag_content = [str_lit ''ab''], frag_spans = []\<rparr>,
          \<lparr>frag_content = [str_lit ''cd''], frag_spans = [S1]\<rparr>,
          \<lparr>frag_content = [str_lit ''ef''], frag_spans = [S2, S1]\<rparr>,
          \<lparr>frag_content = [str_lit ''gh''], frag_spans = [S2]\<rparr>,
          \<lparr>frag_content = [str_lit ''ij''], frag_spans = []\<rparr>] \<and>
   [S2, S1] \<noteq> [S1, S2]"
proof -
  have it: "iterates (order_of_list [S2, S1]) (set [S1, S2])"
    using iterates_order_of_list[of "[S2, S1]"] by (simp add: insert_commute)
  have o: "order_of_list [S2, S1] {} = []" "order_of_list [S2, S1] {S1} = [S1]"
      "order_of_list [S2, S1] {S2} = [S2]" "order_of_list [S2, S1] {S1, S2} = [S2, S1]"
    using S1_neq_S2 by (auto simp: order_of_list_def)
  show ?thesis
    using it S1_neq_S2 example_keys
    by (simp add: example_fragmentize o Fragment_def example_lines sorted_one sorted_equal_keys)
qed

text \<open>
  Claim C3, amended. Slicing \<^verbatim>\<open>abcdefghij\<close> with \<open>S1 = [2, 6)\<close> and \<open>S2 = [4, 8)\<close> gives the
  marks \<open>{2, 4, 6, 8}\<close> and exactly the five fragments \<^verbatim>\<open>ab\<close>, \<^verbatim>\<open>cd\<close>, \<^verbatim>\<open>ef\<close>, \<^verbatim>\<open>gh\<close>, \<^verbatim>\<open>ij\<close>
  with the spans \<open>[]\<close>, \<open>[S1]\<close>, both of \<open>S1\<close> and \<open>S2\<close>, \<open>[S2]\<close>, \<open>[]\<close>. The two spans of
  \<^verbatim>\<open>ef\<close> have equal length and stand in the order in which the set \<open>{S1, S2}\<close> is
  iterated; the spans of every fragment are sorted by \<open>end - start\<close>, descending; the
  fragments join to \<^verbatim>\<open>abcdefghij\<close>.
\<close>

theorem example_fragments:
  assumes "iterates ord {S1, S2}"
  shows "slicing_marks (foldl add_span slicer_init [S1, S2]) = {2, 4, 6, 8} \<and>
         (\<exists>frags. fragmentize ord example_fs example_file [S1, S2] = Inr frags \<and>
            frags = [\<lparr>frag_content = [str_lit ''ab''], frag_spans = []\<rparr>,
                     \<lparr>frag_content = [str_lit ''cd''], frag_spans = [S1]\<rparr>,
                     \<lparr>frag_content = [str_lit ''ef''], frag_spans = ord {S1, S2}\<rparr>,
                     \<lparr>frag_content = [str_lit ''gh''], frag_spans = [S2]\<rparr>,
                     \<lparr>frag_content = [str_lit ''ij''], frag_spans = []\<rparr>] \<and>
            (ord {S1, S2} = [S1, S2] \<or> ord {S1, S2} = [S2, S1]) \<and>
            span_end S1 - span_start S1 = span_end S2 - span_start S2 \<and>
            (\<forall>fr \<in> set frags.
               sorted (rev (map (\<lambda>sp. span_end sp - span_start sp) (frag_spans fr)))) \<and>
            concat (map frag_text frags) = str_lit ''abcdefghij'')"
proof -
  have o: "ord {} = []" "ord {S1} = [S1]" "ord {S2} = [S2]"
    using iterates_empty[OF assms] iterates_single[OF assms] by simp_all
  have pair: "ord {S1, S2} = [S1, S2] \<or> ord {S1, S2} = [S2, S1]"
    using iterates_pair[OF assms _ _ S1_neq_S2] by simp
  have srt: "py_sorted_reverse (\<lambda>sp. span_end sp - span_start sp) (ord {S1, S2}) = ord {S1, S2}"
    using pair example_keys by (auto simp: sorted_equal_keys)
  have frs: "fragmentize ord example_fs example_file [S1, S2] =
     Inr [\<lparr>frag_content = [str_lit ''ab''], frag_spans = []\<rparr>,
          \<lparr>frag_content = [str_lit ''cd''], frag_spans = [S1]\<rparr>,
          \<lparr>frag_content = [str_lit ''ef''], frag_spans = ord {S1, S2}\<rparr>,
          \<lparr>frag_content = [str_lit ''gh''], frag_spans = [S2]\<rparr>,
          \<lparr>frag_content = [str_lit ''ij''], frag_spans = []\<rparr>]"
    by (simp add: example_fragmentize o srt Fragment_def example_lines sorted_one)
  have srt_all: "sorted (rev (map (\<lambda>sp. span_end sp - span_start sp) (ord {S1, S2})))"
    using pair example_keys by auto
  have joined: "str_lit ''ab'' @ str_lit ''cd'' @ str_lit ''ef'' @ str_lit ''gh'' @ str_lit ''ij''
             = str_lit ''abcdefghij''"
    by (simp add: str_lit_def)
  show ?thesis
    unfolding frs example_marks using pair example_keys srt_all joined
    by (simp add: frag_text_def)
qed

text \<open>When the set is iterated in the order of insertion, the result is the one of the claim.\<close>

theorem example_fragments_witness:
  "iterates (order_of_list [S1, S2]) {S1, S2} \<and>
   fragmentize (order_of_list [S1, S2]) example_fs example_file [S1, S2] =
     Inr [\<lparr>frag_content = [str_lit ''ab''], frag_spans = []\<rparr>,
          \<lparr>frag_content = [str_lit ''cd''], frag_spans = [S1]\<rparr>,
          \<lparr>frag_content = [str_lit ''ef''], frag_spans = [S1, S2]\<rparr>,
          \<lparr>frag_content = [str_lit ''gh''], frag_spans = [S2]\<rparr>,
          \<lparr>frag_content = [str_lit ''ij''], frag_spans = []\<rparr>]"
proof -
  have it: "iterates (order_of_list [S1, S2]) {S1, S2}"
    using iterates_order_of_list[of "[S1, S2]"] by simp
  have o: "order_of_list [S1, S2] {S1, S2} = [S1, S2]"
    using S1_neq_S2 by (auto simp: order_of_list_def)
  show ?thesis
    using example_fragments[OF it] it by (simp add: o)
qed

subsection \<open>Malformed spans\<close>

lemma span_sets_length: "length (span_sets self acc ms) = length acc + length ms"
  by (induction ms arbitrary: acc) simp_all

lemma sorted_marks_offsets:
  assumes "nonneg_offsets spans"
  shows "sorted_wrt (<) (0 # sorted_list_of_set (slicing_marks (foldl add_span slicer_init spans) - {0}))"
proof -
  define ms where "ms = sorted_list_of_set (slicing_marks (foldl add_span slicer_init spans) - {0})"
  have set_ms: "set ms = slicing_marks (foldl add_span slicer_init spans) - {0}"
    unfolding ms_def using marks_finite by simp
  have "\<forall>x \<in> set ms. 0 < x"
    using assms unfolding set_ms slicer_marks nonneg_offsets_def by force
  moreover have "sorted_wrt (<) ms"
    unfolding ms_def by (rule strict_sorted_list_of_set)
  ultimately show ?thesis unfolding ms_def by simp
qed

lemma cut_points_offsets:
  assumes nn: "nonneg_offsets spans"
  shows "sorted (cut_points content spans)"
    and "hd (cut_points content spans) = 0"
    and "int (length content) \<le> last (cut_points content spans)"
proof -
  define M where "M = slicing_marks (foldl add_span slicer_init spans) - {0}"
  define ms where "ms = sorted_list_of_set M"
  have fin: "finite M" unfolding M_def by (rule marks_finite)
  have set_ms: "set ms = M" unfolding ms_def using fin by simp
  have strict: "sorted_wrt (<) (0 # close_marks content ms)"
    using close_marks_sorted[OF sorted_marks_offsets[OF nn]] by (simp add: ms_def M_def)
  have cp: "cut_points content spans =
      (if M = {} then [0, int (length content)] else 0 # close_marks content ms)"
    by (simp add: cut_points_def M_def ms_def)
  have ms_ne: "ms \<noteq> []" if "M \<noteq> {}" using that set_ms by auto
  show "sorted (cut_points content spans)"
    using strict by (auto simp: cp dest: strict_sorted_imp_sorted)
  show "hd (cut_points content spans) = 0" by (simp add: cp)
  show "int (length content) \<le> last (cut_points content spans)"
  proof (cases "M = {}")
    case True
    then show ?thesis by (simp add: cp)
  next
    case False
    have "close_marks content ms \<noteq> []" using ms_ne[OF False] by (auto simp: close_marks_def)
    then show ?thesis using close_marks_last[OF ms_ne[OF False], of content] False by (simp add: cp)
  qed
qed

lemma fragmentize_texts:
  assumes fs: "fs (file_path f) = Some content"
    and nn: "nonneg_offsets spans"
  shows "\<exists>frags. fragmentize ord fs f spans = Inr frags \<and>
           length (cut_points content spans) = Suc (length frags) \<and>
           (\<forall>i<length frags.
              frag_text (frags ! i) =
                chars_between content (cut_points content spans ! i) (cut_points content spans ! Suc i))"
proof (cases "slicing_marks (foldl add_span slicer_init spans) - {0} = {}")
  case True
  have frag: "fragmentize ord fs f spans = Inr [Fragment content []]"
    by (simp add: fragmentize_def slice_def fs True)
  have cp: "cut_points content spans = [0, int (length content)]"
    by (simp add: cut_points_def True)
  show ?thesis
    unfolding frag cp by (simp add: frag_text_Fragment chars_between_def)
next
  case False
  define S where "S = foldl add_span slicer_init spans"
  define ms where "ms = sorted_list_of_set (slicing_marks S - {0})"
  define cm where "cm = close_marks content ms"
  define b where "b = 0 # cm"
  define As where "As = span_sets S [start_to_spans S 0 - end_to_spans S 0] ms"
  define ps where "ps = zip As cm"
  have cp: "cut_points content spans = b"
    using cut_points_marks[OF False] by (simp add: b_def cm_def ms_def S_def)
  have frag: "fragmentize ord fs f spans = Inr (split_fragments ord content 0 ps)"
    using False
    by (simp add: fragmentize_def slice_def fs Let_def ps_def As_def cm_def ms_def S_def)
  have len_As: "length As = Suc (length ms)" by (simp add: As_def span_sets_length)
  have len_cm: "length cm \<le> Suc (length ms)"
    unfolding cm_def by (rule close_marks_length)
  have len_ps: "length ps = length cm"
    using len_cm len_As by (simp add: ps_def)
  have snd_ps: "map snd ps = cm"
    using len_cm len_As by (simp add: ps_def map_snd_zip_take)
  have sorted_b: "sorted_wrt (<) b"
    unfolding b_def cm_def
    using close_marks_sorted[OF sorted_marks_offsets[OF nn]] by (simp add: ms_def S_def)
  have b0: "\<forall>x \<in> set b. 0 \<le> x"
    using sorted_b by (auto simp: b_def)
  have each: "frag_text (split_fragments ord content 0 ps ! i) =
                chars_between content (b ! i) (b ! Suc i)"
    if i: "i < length cm" for i
  proof -
    have ips: "i < length ps" using i len_ps by simp
    have lo: "(0 # map snd ps) ! i = b ! i" by (simp add: snd_ps b_def)
    have hi: "snd (ps ! i) = b ! Suc i"
      using ips snd_ps by (metis b_def nth_Cons_Suc nth_map)
    have "b ! i \<le> b ! Suc i"
      using sorted_b i sorted_wrt_nth_less[of "(<)" b i "Suc i"] by (simp add: b_def)
    moreover have "0 \<le> b ! i"
    proof -
      have "i < length b" using i by (simp add: b_def)
      then have "b ! i \<in> set b" by (rule nth_mem)
      then show ?thesis using b0 by blast
    qed
    ultimately have "py_slice content (b ! i) (b ! Suc i) = chars_between content (b ! i) (b ! Suc i)"
      by (rule py_slice_chars[rotated])
    then show ?thesis
      by (simp add: split_fragments_nth[OF ips] lo hi frag_text_Fragment)
  qed
  show ?thesis
    unfolding frag cp
    using each by (simp add: split_fragments_length len_ps b_def)
qed

lemma rev_fragmentize:
  "fragmentize (order_of_list [rev_span]) example_fs example_file [rev_span] =
     Inr [\<lparr>frag_content = [str_lit ''ab''], frag_spans = []\<rparr>,
          \<lparr>frag_content = [str_lit ''cdef''], frag_spans = []\<rparr>,
          \<lparr>frag_content = [str_lit ''ghij''], frag_spans = [rev_span]\<rparr>]"
proof -
  have marks: "slicing_marks (foldl add_span slicer_init [rev_span]) = {2, 6}"
    by (auto simp: add_span_def slicer_init_def rev_span_def)
  have srt: "sorted_list_of_set ({2, 6} - {0::int}) = [2, 6]" by code_simp
  have sets: "span_sets (foldl add_span slicer_init [rev_span])
     [start_to_spans (foldl add_span slicer_init [rev_span]) 0
      - end_to_spans (foldl add_span slicer_init [rev_span]) 0] [2, 6] = [{}, {}, {rev_span}]"
    by (auto simp: add_span_def slicer_init_def rev_span_def)
  have cm: "close_marks (str_lit ''abcdefghij'') [2, 6] = [2, 6, 10]"
    by (simp add: close_marks_def example_len)
  have sl: "py_slice (str_lit ''abcdefghij'') 0 2 = str_lit ''ab''"
    "py_slice (str_lit ''abcdefghij'') 2 6 = str_lit ''cdef''"
    "py_slice (str_lit ''abcdefghij'') 6 10 = str_lit ''ghij''"
    by (simp_all add: py_slice_def adjust_index_def str_lit_def)
  have lines: "splitlines (str_lit ''ab'') = [str_lit ''ab'']"
    "splitlines (str_lit ''cdef'') = [str_lit ''cdef'']"
    "splitlines (str_lit ''ghij'') = [str_lit ''ghij'']"
    by (simp_all add: splitlines_def splitlines_plain str_lit_def is_linebreak_def)
  have o: "order_of_list [rev_span] {} = []" "order_of_list [rev_span] {rev_span} = [rev_span]"
    by (simp_all add: order_of_list_def)
  have ne: "{2, 6} - {0::int} \<noteq> {}" by simp
  show ?thesis
    unfolding fragmentize_def slice_def Let_def marks example_read srt sets cm
    using ne by (simp add: sl cm o Fragment_def lines sorted_one del: Diff_insert0)
qed

lemma neg_fragmentize:
  "fragmentize (order_of_list [neg_span]) example_fs example_file [neg_span] =
     Inr [\<lparr>frag_content = [str_lit ''abcdefgh''], frag_spans = []\<rparr>,
          \<lparr>frag_content = [], frag_spans = [neg_span]\<rparr>,
          \<lparr>frag_content = [str_lit ''cdefghij''], frag_spans = []\<rparr>]"
proof -
  have marks: "slicing_marks (foldl add_span slicer_init [neg_span]) = {- 2, 2}"
    by (auto simp: add_span_def slicer_init_def neg_span_def)
  have srt: "sorted_list_of_set ({- 2, 2} - {0::int}) = [- 2, 2]" by code_simp
  have sets: "span_sets (foldl add_span slicer_init [neg_span])
     [start_to_spans (foldl add_span slicer_init [neg_span]) 0
      - end_to_spans (foldl add_span slicer_init [neg_span]) 0] [- 2, 2] = [{}, {neg_span}, {}]"
    by (auto simp: add_span_def slicer_init_def neg_span_def)
  have cm: "close_marks (str_lit ''abcdefghij'') [- 2, 2] = [- 2, 2, 10]"
    by (simp add: close_marks_def example_len)
  have sl: "py_slice (str_lit ''abcdefghij'') 0 (- 2) = str_lit ''abcdefgh''"
    "py_slice (str_lit ''abcdefghij'') (- 2) 2 = []"
    "py_slice (str_lit ''abcdefghij'') 2 10 = str_lit ''cdefghij''"
    by (simp_all add: py_slice_def adjust_index_def str_lit_def)
  have lines: "splitlines (str_lit ''abcdefgh'') = [str_lit ''abcdefgh'']"
    "splitlines [] = []" "splitlines (str_lit ''cdefghij'') = [str_lit ''cdefghij'']"
    by (simp_all add: splitlines_def splitlines_plain str_lit_def is_linebreak_def)
  have o: "order_of_list [neg_span] {} = []" "order_of_list [neg_span] {neg_span} = [neg_span]"
    by (simp_all add: order_of_list_def)
  have ne: "{- 2, 2} - {0::int} \<noteq> {}" by simp
  show ?thesis
    unfolding fragmentize_def slice_def Let_def marks example_read srt sets cm
    using ne by (simp add: sl cm o Fragment_def lines sorted_one del: Diff_insert0)
qed

text \<open>
  Claim C9, as stated, says that a malformed span is rejected or raises. Neither
  \<^verbatim>\<open>add_span\<close> nor \<^verbatim>\<open>slice\<close> checks a span. On \<^verbatim>\<open>abcdefghij\<close> the span \<open>[- 2, 2)\<close> is
  accepted, and the fragments returned are \<^verbatim>\<open>abcdefgh\<close>, the empty text carrying the span,
  and \<^verbatim>\<open>cdefghij\<close>: they do not join to the text of the file. The span \<open>[6, 2)\<close> is
  accepted as well; the fragments \<^verbatim>\<open>ab\<close>, \<^verbatim>\<open>cdef\<close>, \<^verbatim>\<open>ghij\<close> join to the text, but
  \<^verbatim>\<open>ghij\<close>, cut from offset 6 to offset 10, carries the span although no offset is
  covered by it.
\<close>

theorem malformed_spans_counterexample:
  "\<not> well_formed (str_lit ''abcdefghij'') neg_span \<and>
   fragmentize (order_of_list [neg_span]) example_fs example_file [neg_span] =
     Inr [\<lparr>frag_content = [str_lit ''abcdefgh''], frag_spans = []\<rparr>,
          \<lparr>frag_content = [], frag_spans = [neg_span]\<rparr>,
          \<lparr>frag_content = [str_lit ''cdefghij''], frag_spans = []\<rparr>] \<and>
   str_lit ''abcdefgh'' @ [] @ str_lit ''cdefghij'' \<noteq> str_lit ''abcdefghij'' \<and>
   \<not> well_formed (str_lit ''abcdefghij'') rev_span \<and>
   fragmentize (order_of_list [rev_span]) example_fs example_file [rev_span] =
     Inr [\<lparr>frag_content = [str_lit ''ab''], frag_spans = []\<rparr>,
          \<lparr>frag_content = [str_lit ''cdef''], frag_spans = []\<rparr>,
          \<lparr>frag_content = [str_lit ''ghij''], frag_spans = [rev_span]\<rparr>] \<and>
   cut_points (str_lit ''abcdefghij'') [rev_span] = [0, 2, 6, 10] \<and>
   active [rev_span] 8 = {}"
proof -
  have a: "\<not> well_formed (str_lit ''abcdefghij'') neg_span"
    by (simp add: well_formed_def neg_span_def)
  have b: "str_lit ''abcdefgh'' @ [] @ str_lit ''cdefghij'' \<noteq> str_lit ''abcdefghij''"
    by (simp add: str_lit_def)
  have c: "\<not> well_formed (str_lit ''abcdefghij'') rev_span"
    by (simp add: well_formed_def rev_span_def)
  have marks: "slicing_marks (foldl add_span slicer_init [rev_span]) = {2, 6}"
    by (auto simp: add_span_def slicer_init_def rev_span_def)
  have srt: "sorted_list_of_set ({2, 6} - {0::int}) = [2, 6]" by code_simp
  have ne: "{2, 6} - {0::int} \<noteq> {}" by simp
  have d: "cut_points (str_lit ''abcdefghij'') [rev_span] = [0, 2, 6, 10]"
    unfolding cut_points_def Let_def marks srt
    using ne by (simp add: close_marks_def example_len del: Diff_insert0)
  have e: "active [rev_span] 8 = {}" by (simp add: active_def rev_span_def)
  show ?thesis
    by (intro conjI) (rule a neg_fragmentize b c rev_fragmentize d e)+
qed

text \<open>
  Claim C9, amended. The slicer validates nothing: for a readable file it returns
  fragments for every list of spans. When no offset is negative, also with a start after
  its end or an end beyond the end of the text, the partition law holds: the cut points
  ascend from 0 to the length of the text or beyond it, every fragment holds the
  characters of its range, and the fragments join to the text of the file. When in
  addition every span has \<open>start \<le> end\<close>, every offset of the text lies in a fragment
  that carries exactly the spans covering it. With a negative offset the fragments may
  not join to the text, and with \<open>start > end\<close> a fragment may carry a span that does not
  cover it.
\<close>

theorem slice_without_validation:
  assumes fs: "fs (file_path f) = Some content"
  shows "(\<exists>frags. fragmentize ord fs f spans = Inr frags) \<and>
         (nonneg_offsets spans \<longrightarrow>
            (\<exists>frags. fragmentize ord fs f spans = Inr frags \<and>
               length (cut_points content spans) = Suc (length frags) \<and>
               sorted (cut_points content spans) \<and>
               hd (cut_points content spans) = 0 \<and>
               int (length content) \<le> last (cut_points content spans) \<and>
               (\<forall>i<length frags.
                  frag_text (frags ! i) =
                    chars_between content (cut_points content spans ! i)
                      (cut_points content spans ! Suc i)) \<and>
               concat (map frag_text frags) = content)) \<and>
         (nonneg_spans spans \<and> iterates ord (set spans) \<longrightarrow>
            (\<exists>frags. fragmentize ord fs f spans = Inr frags \<and>
               concat (map frag_text frags) = content \<and>
               (\<forall>t. 0 \<le> t \<and> t < int (length content) \<longrightarrow>
                  (\<exists>i<length frags.
                     cut_points content spans ! i \<le> t \<and> t < cut_points content spans ! Suc i \<and>
                     set (frag_spans (frags ! i)) = active spans t))))"
proof (intro conjI)
  show "\<exists>frags. fragmentize ord fs f spans = Inr frags"
    by (simp add: fragmentize_def slice_def fs Let_def)
  show "nonneg_offsets spans \<longrightarrow>
            (\<exists>frags. fragmentize ord fs f spans = Inr frags \<and>
               length (cut_points content spans) = Suc (length frags) \<and>
               sorted (cut_points content spans) \<and>
               hd (cut_points content spans) = 0 \<and>
               int (length content) \<le> last (cut_points content spans) \<and>
               (\<forall>i<length frags.
                  frag_text (frags ! i) =
                    chars_between content (cut_points content spans ! i)
                      (cut_points content spans ! Suc i)) \<and>
               concat (map frag_text frags) = content)"
  proof
    assume nn: "nonneg_offsets spans"
    obtain frags where fr: "fragmentize ord fs f spans = Inr frags"
      and len: "length (cut_points content spans) = Suc (length frags)"
      and each: "\<forall>i<length frags.
              frag_text (frags ! i) =
                chars_between content (cut_points content spans ! i) (cut_points content spans ! Suc i)"
      using fragmentize_texts[where fs=fs and f=f and ord=ord, OF fs nn] by blast
    note cp = cut_points_offsets[OF nn, of content]
    have whole: "concat (map frag_text frags) = content"
      using concat_frag_text[OF len cp(1) cp(2) cp(3) each] .
    show "\<exists>frags. fragmentize ord fs f spans = Inr frags \<and>
               length (cut_points content spans) = Suc (length frags) \<and>
               sorted (cut_points content spans) \<and>
               hd (cut_points content spans) = 0 \<and>
               int (length content) \<le> last (cut_points content spans) \<and>
               (\<forall>i<length frags.
                  frag_text (frags ! i) =
                    chars_between content (cut_points content spans ! i)
                      (cut_points content spans ! Suc i)) \<and>
               concat (map frag_text frags) = content"
      using fr len cp each whole by (intro exI[of _ frags] conjI)
  qed
  show "nonneg_spans spans \<and> iterates ord (set spans) \<longrightarrow>
            (\<exists>frags. fragmentize ord fs f spans = Inr frags \<and>
               concat (map frag_text frags) = content \<and>
               (\<forall>t. 0 \<le> t \<and> t < int (length content) \<longrightarrow>
                  (\<exists>i<length frags.
                     cut_points content spans ! i \<le> t \<and> t < cut_points content spans ! Suc i \<and>
                     set (frag_spans (frags ! i)) = active spans t)))"
  proof
    assume a: "nonneg_spans spans \<and> iterates ord (set spans)"
    then have nn: "nonneg_spans spans" and it: "iterates ord (set spans)" by simp_all
    obtain frags where fr: "fragmentize ord fs f spans = Inr frags"
      and len: "length (cut_points content spans) = Suc (length frags)"
      and each: "\<forall>i<length frags.
              frag_text (frags ! i) =
                chars_between content (cut_points content spans ! i) (cut_points content spans ! Suc i) \<and>
              (frag_spans (frags ! i) = [] \<and> active spans (cut_points content spans ! i) = {} \<or>
               frag_spans (frags ! i) =
                 py_sorted_reverse (\<lambda>sp. span_end sp - span_start sp)
                   (ord (active spans (cut_points content spans ! i))))"
      using fragmentize_frags[where fs=fs and f=f and ord=ord, OF fs nn] by blast
    obtain frags' where fr': "fragmentize ord fs f spans = Inr frags'"
      and each': "\<forall>i<length frags'.
              set (frag_spans (frags' ! i)) = active spans (cut_points content spans ! i) \<and>
              distinct (frag_spans (frags' ! i)) \<and>
              sorted (rev (map (\<lambda>sp. span_end sp - span_start sp) (frag_spans (frags' ! i))))"
      using fragmentize_spans[where fs=fs and f=f and ord=ord, OF fs nn it] by blast
    have same: "frags' = frags" using fr fr' by simp
    note cp = cut_points_props[OF nn, of content]
    define b where "b = cut_points content spans"
    have sorted_b: "sorted b" and hd_b: "hd b = 0" and last_b: "int (length content) \<le> last b"
      and pts: "\<forall>sp \<in> set spans. span_start sp \<in> set b \<and> span_end sp \<in> set b"
      and len_b: "length b = Suc (length frags)"
      using cp len by (simp_all add: b_def)
    have texts: "\<forall>i<length frags. frag_text (frags ! i) = chars_between content (b ! i) (b ! Suc i)"
      using each by (simp add: b_def)
    have whole: "concat (map frag_text frags) = content"
      using concat_frag_text[OF len_b sorted_b hd_b last_b texts] .
    have at: "\<exists>i<length frags. b ! i \<le> t \<and> t < b ! Suc i \<and> set (frag_spans (frags ! i)) = active spans t"
      if t: "0 \<le> t \<and> t < int (length content)" for t
    proof -
      have "b \<noteq> []" using len_b by auto
      moreover have "hd b \<le> t" "t < last b" using t hd_b last_b by auto
      ultimately obtain i where i: "Suc i < length b" "b ! i \<le> t" "t < b ! Suc i"
        using find_interval[OF sorted_b] by blast
      have "active spans (b ! i) = active spans t"
        using active_in_interval[OF sorted_b i pts] .
      moreover have "i < length frags" using i len_b by simp
      ultimately show ?thesis using each' i unfolding same b_def by auto
    qed
    show "\<exists>frags. fragmentize ord fs f spans = Inr frags \<and>
               concat (map frag_text frags) = content \<and>
               (\<forall>t. 0 \<le> t \<and> t < int (length content) \<longrightarrow>
                  (\<exists>i<length frags.
                     cut_points content spans ! i \<le> t \<and> t < cut_points content spans ! Suc i \<and>
                     set (frag_spans (frags ! i)) = active spans t))"
      using fr whole at unfolding b_def by blast
  qed
qed

text \<open>
  A span with its start after its end and a span that ends beyond the text satisfy the
  hypotheses of the amended C9.
\<close>

theorem slice_without_validation_witness:
  "example_fs (file_path example_file) = Some (str_lit ''abcdefghij'') \<and>
   nonneg_offsets [rev_span] \<and> \<not> well_formed (str_lit ''abcdefghij'') rev_span \<and>
   (\<exists>frags. fragmentize (order_of_list [rev_span]) example_fs example_file [rev_span] = Inr frags \<and>
      concat (map frag_text frags) = str_lit ''abcdefghij'') \<and>
   nonneg_spans [long_span] \<and> iterates (order_of_list [long_span]) (set [long_span]) \<and>
   \<not> well_formed (str_lit ''abcdefghij'') long_span \<and>
   (\<exists>frags. fragmentize (order_of_list [long_span]) example_fs example_file [long_span] = Inr frags \<and>
      concat (map frag_text frags) = str_lit ''abcdefghij'' \<and>
      (\<exists>i<length frags. set (frag_spans (frags ! i)) = {long_span}))"
proof -
  have no: "nonneg_offsets [rev_span]" by (simp add: nonneg_offsets_def rev_span_def)
  have nwr: "\<not> well_formed (str_lit ''abcdefghij'') rev_span"
    by (simp add: well_formed_def rev_span_def)
  note r = slice_without_validation[where fs=example_fs and f=example_file and spans="[rev_span]"
        and ord="order_of_list [rev_span]", OF example_read]
  have p1: "\<exists>frags. fragmentize (order_of_list [rev_span]) example_fs example_file [rev_span] = Inr frags \<and>
      concat (map frag_text frags) = str_lit ''abcdefghij''"
    using r[THEN conjunct2, THEN conjunct1] no by blast
  have nn: "nonneg_spans [long_span]" by (simp add: nonneg_spans_def long_span_def)
  have it: "iterates (order_of_list [long_span]) (set [long_span])" by (rule iterates_order_of_list)
  have nwf: "\<not> well_formed (str_lit ''abcdefghij'') long_span"
    by (simp add: well_formed_def long_span_def example_len)
  have act: "active [long_span] 9 = {long_span}" by (auto simp: active_def long_span_def)
  note l = slice_without_validation[where fs=example_fs and f=example_file and spans="[long_span]"
        and ord="order_of_list [long_span]", OF example_read]
  obtain frags where fr: "fragmentize (order_of_list [long_span]) example_fs example_file [long_span] = Inr frags"
    and whole: "concat (map frag_text frags) = str_lit ''abcdefghij''"
    and at: "\<forall>t. 0 \<le> t \<and> t < int (length (str_lit ''abcdefghij'')) \<longrightarrow>
                  (\<exists>i<length frags.
                     cut_points (str_lit ''abcdefghij'') [long_span] ! i \<le> t \<and>
                     t < cut_points (str_lit ''abcdefghij'') [long_span] ! Suc i \<and>
                     set (frag_spans (frags ! i)) = active [long_span] t)"
    using l[THEN conjunct2, THEN conjunct2] nn it by blast
  have "\<exists>i<length frags. set (frag_spans (frags ! i)) = {long_span}"
    using at[rule_format, of 9] by (auto simp: example_len act)
  then have p2: "\<exists>frags. fragmentize (order_of_list [long_span]) example_fs example_file [long_span] = Inr frags \<and>
      concat (map frag_text frags) = str_lit ''abcdefghij'' \<and>
      (\<exists>i<length frags. set (frag_spans (frags ! i)) = {long_span})"
    using fr whole by blast
  show ?thesis by (intro conjI) (rule example_read no nwr p1 nn it nwf p2)+
qed

section \<open>Properties of the renderer\<close>

subsection \<open>Annotated fragments\<close>

lemma frag_id_eq:
  "frag_id self fr = (frag_name (frag_id_counter self + 1),
                       self\<lparr>frag_id_counter := frag_id_counter self + 1\<rparr>)"
  by (simp add: frag_id_def frag_name_def Let_def)

lemma html_fragments_loop_length:
  "length (fst (html_fragments_loop self ign frags)) = length frags"
  by (induction frags arbitrary: self) (simp_all add: frag_id_eq Let_def case_prod_beta)

lemma html_fragments_loop_state:
  "snd (html_fragments_loop self ign frags) =
     self\<lparr>frag_id_counter := frag_id_counter self + int (length frags)\<rparr>"
  by (induction frags arbitrary: self) (simp_all add: frag_id_eq Let_def case_prod_beta add.assoc)

lemma html_fragments_loop_nth:
  "i < length frags \<Longrightarrow>
   fst (html_fragments_loop self ign frags) ! i =
     \<lparr>hfrag_id = frag_name (frag_id_counter self + 1 + int i),
      hfrag_content = frag_content (frags ! i),
      hfrag_is_ignored = list_ex (\<lambda>sp. sp \<in> ign) (frag_spans (frags ! i)),
      hfrag_is_grouped = list_ex (\<lambda>sp. sp \<notin> ign) (frag_spans (frags ! i)),
      hfrag_spans = frag_spans (frags ! i)\<rparr>"
proof (induction frags arbitrary: self i)
  case Nil
  then show ?case by simp
next
  case (Cons fr frags)
  show ?case
  proof (cases i)
    case 0
    then show ?thesis by (simp add: frag_id_eq Let_def case_prod_beta)
  next
    case (Suc j)
    then have j: "j < length frags" using Cons.prems by simp
    show ?thesis
      using Cons.IH[OF j, of "self\<lparr>frag_id_counter := frag_id_counter self + 1\<rparr>"]
      by (simp add: Suc frag_id_eq Let_def add.assoc case_prod_beta)
  qed
qed

lemma sum_line_lengths:
  "sum_list (map (\<lambda>line. int (length line)) xs) = int (length (concat xs))"
  by (induction xs) simp_all

lemma count_chars_sum:
  "count_chars frs (a, b) =
     (a + sum_list (map hfrag_chars (filter (\<lambda>h. \<not> hfrag_is_ignored h) frs)),
      b + sum_list (map hfrag_chars
                     (filter (\<lambda>h. \<not> hfrag_is_ignored h \<and> hfrag_is_grouped h) frs)))"
proof (induction frs arbitrary: a b)
  case Nil
  then show ?case by simp
next
  case (Cons h frs)
  show ?case by (simp add: Cons.IH Let_def sum_line_lengths hfrag_chars_def)
qed

lemma html_fragments_Inr:
  assumes "html_fragments ord fs self f spans ign = Inr (hfrags, self')"
  shows "\<exists>frags. fragmentize ord fs f spans = Inr frags \<and>
           hfrags = fst (html_fragments_loop self ign frags) \<and>
           self' = self\<lparr>frag_id_counter := frag_id_counter self + int (length frags)\<rparr>"
proof (cases "fragmentize ord fs f spans")
  case (Inl e)
  then show ?thesis using assms by (simp add: html_fragments_def)
next
  case (Inr frags)
  then have eq: "html_fragments_loop self ign frags = (hfrags, self')"
    using assms by (simp add: html_fragments_def)
  have h1: "hfrags = fst (html_fragments_loop self ign frags)" by (simp add: eq)
  have "self' = snd (html_fragments_loop self ign frags)" by (simp add: eq)
  then have h2: "self' = self\<lparr>frag_id_counter := frag_id_counter self + int (length frags)\<rparr>"
    by (simp only: html_fragments_loop_state)
  show ?thesis
  proof (intro exI conjI)
    show "fragmentize ord fs f spans = Inr frags" by (rule Inr)
    show "hfrags = fst (html_fragments_loop self ign frags)" by (rule h1)
    show "self' = self\<lparr>frag_id_counter := frag_id_counter self + int (length frags)\<rparr>"
      by (rule h2)
  qed
qed

lemma html_fragments_loop_maps:
  "map hfrag_content (fst (html_fragments_loop self ign frags)) = map frag_content frags"
  "map hfrag_spans (fst (html_fragments_loop self ign frags)) = map frag_spans frags"
  "map hfrag_id (fst (html_fragments_loop self ign frags)) =
     map (\<lambda>i. frag_name (frag_id_counter self + 1 + int i)) [0..<length frags]"
  by (rule nth_equalityI; simp add: html_fragments_loop_length html_fragments_loop_nth)+

lemma html_fragments_loop_flags:
  assumes "h \<in> set (fst (html_fragments_loop self ign frags))"
  shows "(hfrag_is_ignored h \<longleftrightarrow> (\<exists>sp \<in> set (hfrag_spans h). sp \<in> ign)) \<and>
         (hfrag_is_grouped h \<longleftrightarrow> (\<exists>sp \<in> set (hfrag_spans h). sp \<notin> ign))"
proof -
  obtain i where i: "i < length frags" "h = fst (html_fragments_loop self ign frags) ! i"
    using assms by (auto simp: in_set_conv_nth html_fragments_loop_length)
  show ?thesis
    unfolding i(2) html_fragments_loop_nth[OF i(1)] by (simp add: list_ex_iff)
qed

text \<open>
  Claim C4. The fragments that \<^verbatim>\<open>html_fragments\<close> returns are the fragments of
  \<^verbatim>\<open>fragmentize\<close>, with their content and spans; \<open>is_ignored\<close> holds iff at least one span
  of the fragment is in the ignored set, and \<open>is_grouped\<close> iff at least one is not. With
  an empty span list a readable file gives exactly one fragment: its content is the
  whole text, it has no spans, and both flags are false.
\<close>

theorem html_fragments_flags:
  "(html_fragments ord fs self f spans ign = Inr (hfrags, self') \<longrightarrow>
      (\<exists>frags. fragmentize ord fs f spans = Inr frags \<and>
         map hfrag_content hfrags = map frag_content frags \<and>
         map hfrag_spans hfrags = map frag_spans frags) \<and>
      (\<forall>h \<in> set hfrags.
         (hfrag_is_ignored h \<longleftrightarrow> (\<exists>sp \<in> set (hfrag_spans h). sp \<in> ign)) \<and>
         (hfrag_is_grouped h \<longleftrightarrow> (\<exists>sp \<in> set (hfrag_spans h). sp \<notin> ign)))) \<and>
   (fs (file_path f) = Some content \<longrightarrow>
      html_fragments ord fs self f [] ign =
        Inr ([\<lparr>hfrag_id = frag_name (frag_id_counter self + 1),
               hfrag_content = splitlines content,
               hfrag_is_ignored = False, hfrag_is_grouped = False, hfrag_spans = []\<rparr>],
             self\<lparr>frag_id_counter := frag_id_counter self + 1\<rparr>) \<and>
      concat (splitlines content) = content)"
proof (intro conjI impI)
  assume a: "html_fragments ord fs self f spans ign = Inr (hfrags, self')"
  then obtain frags where fr: "fragmentize ord fs f spans = Inr frags"
    and hf: "hfrags = fst (html_fragments_loop self ign frags)"
    using html_fragments_Inr by blast
  show "\<exists>frags. fragmentize ord fs f spans = Inr frags \<and>
         map hfrag_content hfrags = map frag_content frags \<and>
         map hfrag_spans hfrags = map frag_spans frags"
    using fr hf html_fragments_loop_maps(1,2) by blast
  show "\<forall>h \<in> set hfrags.
         (hfrag_is_ignored h \<longleftrightarrow> (\<exists>sp \<in> set (hfrag_spans h). sp \<in> ign)) \<and>
         (hfrag_is_grouped h \<longleftrightarrow> (\<exists>sp \<in> set (hfrag_spans h). sp \<notin> ign))"
    unfolding hf using html_fragments_loop_flags by blast
next
  assume fs: "fs (file_path f) = Some content"
  have "fragmentize ord fs f [] = Inr [Fragment content []]"
    by (simp add: fragmentize_def slice_def fs slicer_init_def)
  then show "html_fragments ord fs self f [] ign =
        Inr ([\<lparr>hfrag_id = frag_name (frag_id_counter self + 1),
               hfrag_content = splitlines content,
               hfrag_is_ignored = False, hfrag_is_grouped = False, hfrag_spans = []\<rparr>],
             self\<lparr>frag_id_counter := frag_id_counter self + 1\<rparr>)"
    by (simp add: html_fragments_def frag_id_eq Fragment_def)
  show "concat (splitlines content) = content" by (rule concat_splitlines)
qed

lemma hello_read: "hello_fs (file_path hello_file) = Some (str_lit ''hello'')"
  by (simp add: hello_fs_def hello_file_def)

lemma hello_lines: "splitlines (str_lit ''hello'') = [str_lit ''hello'']"
  by (simp add: splitlines_def splitlines_plain str_lit_def is_linebreak_def)

lemma frag_name_0: "frag_name 0 = str_lit ''frag0''"
  by (simp add: frag_name_def str_int_def str_lit_def digits.simps[of 0])

text \<open>
  The scenario with \<open>S2\<close> ignored, and the text \<^verbatim>\<open>hello\<close> without spans: the fragment
  \<^verbatim>\<open>ef\<close>, covered by \<open>S1\<close> and \<open>S2\<close>, is both ignored and grouped.
\<close>

theorem html_fragments_flags_witness:
  "(\<exists>hfrags self'.
      html_fragments (order_of_list [S1, S2]) example_fs renderer_init example_file [S1, S2] {S2}
        = Inr (hfrags, self') \<and>
      map hfrag_spans hfrags = [[], [S1], [S1, S2], [S2], []] \<and>
      \<not> hfrag_is_ignored (hfrags ! 1) \<and> hfrag_is_grouped (hfrags ! 1) \<and>
      hfrag_is_ignored (hfrags ! 2) \<and> hfrag_is_grouped (hfrags ! 2) \<and>
      hfrag_is_ignored (hfrags ! 3) \<and> \<not> hfrag_is_grouped (hfrags ! 3)) \<and>
   hello_fs (file_path hello_file) = Some (str_lit ''hello'') \<and>
   html_fragments (order_of_list []) hello_fs renderer_init hello_file [] {} =
     Inr ([\<lparr>hfrag_id = str_lit ''frag0'', hfrag_content = [str_lit ''hello''],
            hfrag_is_ignored = False, hfrag_is_grouped = False, hfrag_spans = []\<rparr>],
          renderer_init\<lparr>frag_id_counter := 0\<rparr>)"
proof -
  let ?ord = "order_of_list [S1, S2]"
  have fr: "fragmentize ?ord example_fs example_file [S1, S2] =
     Inr [\<lparr>frag_content = [str_lit ''ab''], frag_spans = []\<rparr>,
          \<lparr>frag_content = [str_lit ''cd''], frag_spans = [S1]\<rparr>,
          \<lparr>frag_content = [str_lit ''ef''], frag_spans = [S1, S2]\<rparr>,
          \<lparr>frag_content = [str_lit ''gh''], frag_spans = [S2]\<rparr>,
          \<lparr>frag_content = [str_lit ''ij''], frag_spans = []\<rparr>]"
  proof -
    have o: "?ord {} = []" "?ord {S1} = [S1]" "?ord {S2} = [S2]" "?ord {S1, S2} = [S1, S2]"
      using S1_neq_S2 by (auto simp: order_of_list_def)
    show ?thesis
      using example_keys
      by (simp add: example_fragmentize o Fragment_def example_lines sorted_one sorted_equal_keys)
  qed
  obtain hfrags self' where hf:
    "html_fragments ?ord example_fs renderer_init example_file [S1, S2] {S2} = Inr (hfrags, self')"
    by (simp add: html_fragments_def fr case_prod_beta)
  note flags_thm = html_fragments_flags[of ?ord example_fs renderer_init example_file "[S1, S2]" "{S2}"
      hfrags self' "str_lit ''hello''"]
  have spans: "map hfrag_spans hfrags = [[], [S1], [S1, S2], [S2], []]"
    using flags_thm hf fr by auto
  then have len: "length hfrags = 5" using length_map[of hfrag_spans hfrags] by simp
  have sp: "hfrag_spans (hfrags ! 1) = [S1]" "hfrag_spans (hfrags ! 2) = [S1, S2]"
    "hfrag_spans (hfrags ! 3) = [S2]"
  proof -
    have "hfrag_spans (hfrags ! i) = map hfrag_spans hfrags ! i" if "i < 5" for i
      using that len by simp
    then show "hfrag_spans (hfrags ! 1) = [S1]" "hfrag_spans (hfrags ! 2) = [S1, S2]"
      "hfrag_spans (hfrags ! 3) = [S2]"
      unfolding spans by simp_all
  qed
  have mem: "hfrags ! 1 \<in> set hfrags" "hfrags ! 2 \<in> set hfrags" "hfrags ! 3 \<in> set hfrags"
    using len by simp_all
  have flags: "\<not> hfrag_is_ignored (hfrags ! 1) \<and> hfrag_is_grouped (hfrags ! 1) \<and>
      hfrag_is_ignored (hfrags ! 2) \<and> hfrag_is_grouped (hfrags ! 2) \<and>
      hfrag_is_ignored (hfrags ! 3) \<and> \<not> hfrag_is_grouped (hfrags ! 3)"
    using flags_thm hf mem sp S1_neq_S2 by auto
  have hello: "html_fragments (order_of_list []) hello_fs renderer_init hello_file [] {} =
     Inr ([\<lparr>hfrag_id = str_lit ''frag0'', hfrag_content = [str_lit ''hello''],
            hfrag_is_ignored = False, hfrag_is_grouped = False, hfrag_spans = []\<rparr>],
          renderer_init\<lparr>frag_id_counter := 0\<rparr>)"
    using html_fragments_flags[of "order_of_list []" hello_fs renderer_init hello_file "[]" "{}"
        "[]" renderer_init "str_lit ''hello''"] hello_read
    by (simp add: hello_lines frag_name_0 renderer_init_def)
  have part1: "\<exists>hfrags self'.
      html_fragments ?ord example_fs renderer_init example_file [S1, S2] {S2}
        = Inr (hfrags, self') \<and>
      map hfrag_spans hfrags = [[], [S1], [S1, S2], [S2], []] \<and>
      \<not> hfrag_is_ignored (hfrags ! 1) \<and> hfrag_is_grouped (hfrags ! 1) \<and>
      hfrag_is_ignored (hfrags ! 2) \<and> hfrag_is_grouped (hfrags ! 2) \<and>
      hfrag_is_ignored (hfrags ! 3) \<and> \<not> hfrag_is_grouped (hfrags ! 3)"
    using hf spans flags by (intro exI[of _ hfrags] exI[of _ self']) simp
  show ?thesis by (intro conjI) (rule part1 hello_read hello)+
qed

lemma html_files_loop_props:
  "html_files_loop ord fs self fts ign files = Inr (hfiles, self') \<Longrightarrow>
   list_all2 (\<lambda>file hf.
       hfile_name hf = file_name file \<and>
       (\<exists>s s'. html_fragments ord fs s file (fts file) ign = Inr (hfile_fragments hf, s')) \<and>
       (hfile_num_chars hf, hfile_num_chars_matched hf) = count_chars (hfile_fragments hf) (0, 0))
     files hfiles"
proof (induction files arbitrary: self hfiles self')
  case Nil
  then show ?case by simp
next
  case (Cons fl files)
  from Cons.prems obtain hfr self1 where
    h1: "html_fragments ord fs self fl (fts fl) ign = Inr (hfr, self1)"
    by (cases "html_fragments ord fs self fl (fts fl) ign") auto
  from Cons.prems h1 obtain rest self2 where
    h2: "html_files_loop ord fs self1 fts ign files = Inr (rest, self2)"
    by (cases "html_files_loop ord fs self1 fts ign files") (auto simp: case_prod_beta)
  have hf: "hfiles = \<lparr>hfile_name = file_name fl, hfile_fragments = hfr,
                      hfile_num_chars_matched = snd (count_chars hfr (0, 0)),
                      hfile_num_chars = fst (count_chars hfr (0, 0))\<rparr> # rest"
    using Cons.prems h1 h2 by (simp add: case_prod_beta)
  show ?case
    unfolding hf using Cons.IH[OF h2] h1 by auto
qed

text \<open>
  Claim C5. For every file of the submission \<^verbatim>\<open>html_files\<close> returns one annotated file,
  with the fragments of \<^verbatim>\<open>html_fragments\<close> for that file; its \<open>num_chars\<close> is the number
  of characters of the fragments that are not ignored, its \<open>num_chars_matched\<close> that of
  the fragments that are not ignored and are grouped, and such a fragment has a span,
  none of them ignored. The counts of \<^verbatim>\<open>html_submission\<close> are the sums of the counts of
  its files.
\<close>

theorem html_files_counts:
  "(html_files ord fs self sub fts ign = Inr (hfiles, self') \<longrightarrow>
      length hfiles = length (sub_files sub) \<and>
      (\<forall>i<length hfiles.
         (\<exists>s s'. html_fragments ord fs s (sub_files sub ! i) (fts (sub_files sub ! i)) ign
                    = Inr (hfile_fragments (hfiles ! i), s')) \<and>
         hfile_num_chars (hfiles ! i) =
           sum_list (map hfrag_chars
             (filter (\<lambda>h. \<not> hfrag_is_ignored h) (hfile_fragments (hfiles ! i)))) \<and>
         hfile_num_chars_matched (hfiles ! i) =
           sum_list (map hfrag_chars
             (filter (\<lambda>h. \<not> hfrag_is_ignored h \<and> hfrag_is_grouped h)
                (hfile_fragments (hfiles ! i)))) \<and>
         (\<forall>h \<in> set (hfile_fragments (hfiles ! i)).
            \<not> hfrag_is_ignored h \<and> hfrag_is_grouped h \<longrightarrow>
            (\<exists>sp \<in> set (hfrag_spans h). sp \<notin> ign) \<and> (\<forall>sp \<in> set (hfrag_spans h). sp \<notin> ign)))) \<and>
   (html_submission ord fs self sub fts ign = Inr (hsub, self') \<longrightarrow>
      html_files ord fs self sub fts ign = Inr (hsub_files hsub, self') \<and>
      hsub_num_chars hsub = sum_list (map hfile_num_chars (hsub_files hsub)) \<and>
      hsub_num_chars_matched hsub = sum_list (map hfile_num_chars_matched (hsub_files hsub)))"
proof (intro conjI impI)
  assume a: "html_files ord fs self sub fts ign = Inr (hfiles, self')"
  then have all2: "list_all2 (\<lambda>file hf.
       hfile_name hf = file_name file \<and>
       (\<exists>s s'. html_fragments ord fs s file (fts file) ign = Inr (hfile_fragments hf, s')) \<and>
       (hfile_num_chars hf, hfile_num_chars_matched hf) = count_chars (hfile_fragments hf) (0, 0))
     (sub_files sub) hfiles"
    unfolding html_files_def by (rule html_files_loop_props)
  then show len: "length hfiles = length (sub_files sub)"
    by (simp add: list_all2_lengthD)
  show "\<forall>i<length hfiles.
         (\<exists>s s'. html_fragments ord fs s (sub_files sub ! i) (fts (sub_files sub ! i)) ign
                    = Inr (hfile_fragments (hfiles ! i), s')) \<and>
         hfile_num_chars (hfiles ! i) =
           sum_list (map hfrag_chars
             (filter (\<lambda>h. \<not> hfrag_is_ignored h) (hfile_fragments (hfiles ! i)))) \<and>
         hfile_num_chars_matched (hfiles ! i) =
           sum_list (map hfrag_chars
             (filter (\<lambda>h. \<not> hfrag_is_ignored h \<and> hfrag_is_grouped h)
                (hfile_fragments (hfiles ! i)))) \<and>
         (\<forall>h \<in> set (hfile_fragments (hfiles ! i)).
            \<not> hfrag_is_ignored h \<and> hfrag_is_grouped h \<longrightarrow>
            (\<exists>sp \<in> set (hfrag_spans h). sp \<notin> ign) \<and> (\<forall>sp \<in> set (hfrag_spans h). sp \<notin> ign))"
  proof (intro allI impI)
    fix i assume i: "i < length hfiles"
    let ?file = "sub_files sub ! i" and ?hf = "hfiles ! i"
    from all2 i have p: "(\<exists>s s'. html_fragments ord fs s ?file (fts ?file) ign = Inr (hfile_fragments ?hf, s'))"
      and c: "(hfile_num_chars ?hf, hfile_num_chars_matched ?hf) = count_chars (hfile_fragments ?hf) (0, 0)"
      by (auto dest: list_all2_nthD2)
    from p obtain s s' where
      hfr: "html_fragments ord fs s ?file (fts ?file) ign = Inr (hfile_fragments ?hf, s')" by blast
    have flags: "\<forall>h \<in> set (hfile_fragments ?hf).
         (hfrag_is_ignored h \<longleftrightarrow> (\<exists>sp \<in> set (hfrag_spans h). sp \<in> ign)) \<and>
         (hfrag_is_grouped h \<longleftrightarrow> (\<exists>sp \<in> set (hfrag_spans h). sp \<notin> ign))"
    proof -
      obtain frags where "hfile_fragments ?hf = fst (html_fragments_loop s ign frags)"
        using html_fragments_Inr[OF hfr] by blast
      then show ?thesis using html_fragments_loop_flags[of _ s ign frags] by simp
    qed
    have n: "hfile_num_chars ?hf =
           sum_list (map hfrag_chars (filter (\<lambda>h. \<not> hfrag_is_ignored h) (hfile_fragments ?hf)))"
      and m: "hfile_num_chars_matched ?hf =
           sum_list (map hfrag_chars
             (filter (\<lambda>h. \<not> hfrag_is_ignored h \<and> hfrag_is_grouped h) (hfile_fragments ?hf)))"
      using c unfolding count_chars_sum by simp_all
    show "(\<exists>s s'. html_fragments ord fs s ?file (fts ?file) ign = Inr (hfile_fragments ?hf, s')) \<and>
         hfile_num_chars ?hf =
           sum_list (map hfrag_chars (filter (\<lambda>h. \<not> hfrag_is_ignored h) (hfile_fragments ?hf))) \<and>
         hfile_num_chars_matched ?hf =
           sum_list (map hfrag_chars
             (filter (\<lambda>h. \<not> hfrag_is_ignored h \<and> hfrag_is_grouped h) (hfile_fragments ?hf))) \<and>
         (\<forall>h \<in> set (hfile_fragments ?hf).
            \<not> hfrag_is_ignored h \<and> hfrag_is_grouped h \<longrightarrow>
            (\<exists>sp \<in> set (hfrag_spans h). sp \<notin> ign) \<and> (\<forall>sp \<in> set (hfrag_spans h). sp \<notin> ign))"
      using p n m flags by blast
  qed
next
  assume a: "html_submission ord fs self sub fts ign = Inr (hsub, self')"
  then obtain files where f: "html_files ord fs self sub fts ign = Inr (files, self')"
    and h: "hsub = \<lparr>hsub_name = sub_path sub, hsub_files = files,
                     hsub_num_chars_matched = sum_list (map hfile_num_chars_matched files),
                     hsub_num_chars = sum_list (map hfile_num_chars files)\<rparr>"
    by (cases "html_files ord fs self sub fts ign") (auto simp: html_submission_def Let_def)
  show "html_files ord fs self sub fts ign = Inr (hsub_files hsub, self')" by (simp add: f h)
  show "hsub_num_chars hsub = sum_list (map hfile_num_chars (hsub_files hsub))" by (simp add: h)
  show "hsub_num_chars_matched hsub = sum_list (map hfile_num_chars_matched (hsub_files hsub))"
    by (simp add: h)
qed

lemma example_fragmentize_inorder:
  "fragmentize (order_of_list [S1, S2]) example_fs example_file [S1, S2] =
     Inr [\<lparr>frag_content = [str_lit ''ab''], frag_spans = []\<rparr>,
          \<lparr>frag_content = [str_lit ''cd''], frag_spans = [S1]\<rparr>,
          \<lparr>frag_content = [str_lit ''ef''], frag_spans = [S1, S2]\<rparr>,
          \<lparr>frag_content = [str_lit ''gh''], frag_spans = [S2]\<rparr>,
          \<lparr>frag_content = [str_lit ''ij''], frag_spans = []\<rparr>]"
proof -
  have o: "order_of_list [S1, S2] {} = []" "order_of_list [S1, S2] {S1} = [S1]"
    "order_of_list [S1, S2] {S2} = [S2]" "order_of_list [S1, S2] {S1, S2} = [S1, S2]"
    using S1_neq_S2 by (auto simp: order_of_list_def)
  show ?thesis
    using example_keys
    by (simp add: example_fragmentize o Fragment_def example_lines sorted_one sorted_equal_keys)
qed

lemma example_html_fragments:
  "html_fragments (order_of_list [S1, S2]) example_fs self example_file [S1, S2] {S2} =
     Inr ([\<lparr>hfrag_id = frag_name (frag_id_counter self + 1), hfrag_content = [str_lit ''ab''],
             hfrag_is_ignored = False, hfrag_is_grouped = False, hfrag_spans = []\<rparr>,
           \<lparr>hfrag_id = frag_name (frag_id_counter self + 2), hfrag_content = [str_lit ''cd''],
             hfrag_is_ignored = False, hfrag_is_grouped = True, hfrag_spans = [S1]\<rparr>,
           \<lparr>hfrag_id = frag_name (frag_id_counter self + 3), hfrag_content = [str_lit ''ef''],
             hfrag_is_ignored = True, hfrag_is_grouped = True, hfrag_spans = [S1, S2]\<rparr>,
           \<lparr>hfrag_id = frag_name (frag_id_counter self + 4), hfrag_content = [str_lit ''gh''],
             hfrag_is_ignored = True, hfrag_is_grouped = False, hfrag_spans = [S2]\<rparr>,
           \<lparr>hfrag_id = frag_name (frag_id_counter self + 5), hfrag_content = [str_lit ''ij''],
             hfrag_is_ignored = False, hfrag_is_grouped = False, hfrag_spans = []\<rparr>],
          self\<lparr>frag_id_counter := frag_id_counter self + 5\<rparr>)"
  using S1_neq_S2
  by (simp add: html_fragments_def example_fragmentize_inorder frag_id_eq Let_def add.commute)

text \<open>
  The scenario with \<open>S2\<close> ignored: the fragments \<^verbatim>\<open>ab\<close>, \<^verbatim>\<open>cd\<close> and \<^verbatim>\<open>ij\<close> count, and
  only \<^verbatim>\<open>cd\<close> is matched.
\<close>

theorem html_files_counts_witness:
  "\<exists>hfiles hsub self'.
     html_files (order_of_list [S1, S2]) example_fs renderer_init example_sub (\<lambda>_. [S1, S2]) {S2}
       = Inr (hfiles, self') \<and>
     html_submission (order_of_list [S1, S2]) example_fs renderer_init example_sub (\<lambda>_. [S1, S2]) {S2}
       = Inr (hsub, self') \<and>
     length hfiles = 1 \<and>
     map hfrag_chars (hfile_fragments (hfiles ! 0)) = [2, 2, 2, 2, 2] \<and>
     hfile_num_chars (hfiles ! 0) = 6 \<and> hfile_num_chars_matched (hfiles ! 0) = 2 \<and>
     hsub_num_chars hsub = 6 \<and> hsub_num_chars_matched hsub = 2"
proof -
  let ?ord = "order_of_list [S1, S2]"
  define E where "E = fst (projr (html_fragments ?ord example_fs renderer_init example_file [S1, S2] {S2}))"
  obtain hfiles self' where hf:
    "html_files ?ord example_fs renderer_init example_sub (\<lambda>_. [S1, S2]) {S2} = Inr (hfiles, self')"
    and frs: "hfile_fragments (hfiles ! 0) = E"
    by (simp add: html_files_def example_sub_def example_html_fragments case_prod_beta E_def)
  obtain hsub where hs:
    "html_submission ?ord example_fs renderer_init example_sub (\<lambda>_. [S1, S2]) {S2} = Inr (hsub, self')"
    by (simp add: html_submission_def hf)
  note counts = html_files_counts[of ?ord example_fs renderer_init example_sub "\<lambda>_. [S1, S2]" "{S2}"
      hfiles self' hsub]
  have len: "length hfiles = 1" using counts hf by (simp add: example_sub_def)
  have chars: "map hfrag_chars E = [2, 2, 2, 2, 2]"
    by (simp add: E_def example_html_fragments hfrag_chars_def str_lit_def)
  have Eflags: "map hfrag_is_ignored E = [False, False, True, True, False]"
    "map hfrag_is_grouped E = [False, True, True, False, False]"
    by (simp_all add: E_def example_html_fragments)
  obtain e0 e1 e2 e3 e4 where E5: "E = [e0, e1, e2, e3, e4]"
    by (simp add: E_def example_html_fragments)
  have "hfile_num_chars (hfiles ! 0) =
           sum_list (map hfrag_chars (filter (\<lambda>h. \<not> hfrag_is_ignored h) E))"
    using counts hf len by (simp add: frs)
  also have "\<dots> = 6" using chars Eflags unfolding E5 by simp
  finally have n: "hfile_num_chars (hfiles ! 0) = 6" .
  have "hfile_num_chars_matched (hfiles ! 0) =
           sum_list (map hfrag_chars
             (filter (\<lambda>h. \<not> hfrag_is_ignored h \<and> hfrag_is_grouped h) E))"
    using counts hf len by (simp add: frs)
  also have "\<dots> = 2" using chars Eflags unfolding E5 by simp
  finally have m: "hfile_num_chars_matched (hfiles ! 0) = 2" .
  have files1: "hsub_files hsub = hfiles" using counts hs hf by simp
  obtain h0 where h0: "hfiles = [h0]" using len by (cases hfiles) auto
  have sn: "hsub_num_chars hsub = 6" and sm: "hsub_num_chars_matched hsub = 2"
    using counts hs n m unfolding files1 h0 by simp_all
  show ?thesis
    using hf hs len chars n m sn sm
    by (intro exI[of _ hfiles] exI[of _ hsub] exI[of _ self']) (simp add: frs)
qed

subsection \<open>The cross-reference index\<close>

lemma extends_refl: "extends self self"
  by (simp add: extends_def)

lemma extends_trans: "extends a b \<Longrightarrow> extends b c \<Longrightarrow> extends a c"
  by (auto simp: extends_def intro: map_le_trans)

lemma idstore_get_props:
  assumes "idstore_get store obj = (i, store')"
  shows "ids store' obj = Some i" and "ids store \<subseteq>\<^sub>m ids store'"
    and "idstore_ok store \<Longrightarrow> idstore_ok store'"
    and "dom (ids store') = insert obj (dom (ids store))"
proof -
  show "ids store' obj = Some i"
    using assms by (auto simp: idstore_get_def split: option.splits)
  show "ids store \<subseteq>\<^sub>m ids store'"
    using assms by (auto simp: idstore_get_def map_le_def split: option.splits)
  show "dom (ids store') = insert obj (dom (ids store))"
    using assms by (auto simp: idstore_get_def split: option.splits)
  show "idstore_ok store'" if ok: "idstore_ok store"
  proof (cases "ids store obj")
    case None
    then have s': "store' = store\<lparr>ids := (ids store)(obj \<mapsto> num_objects store),
                                  num_objects := num_objects store + 1\<rparr>"
      using assms by (auto simp: idstore_get_def)
    have lt: "\<forall>x i. ids store x = Some i \<longrightarrow> i < num_objects store"
      and inj: "\<forall>x y i. ids store x = Some i \<and> ids store y = Some i \<longrightarrow> x = y"
      using ok unfolding idstore_ok_def by blast+
    have f1: "\<forall>x i. ((ids store)(obj \<mapsto> num_objects store)) x = Some i \<longrightarrow> i < num_objects store + 1"
    proof (intro allI impI)
      fix x i assume a: "((ids store)(obj \<mapsto> num_objects store)) x = Some i"
      show "i < num_objects store + 1"
      proof (cases "x = obj")
        case True
        then show ?thesis using a by simp
      next
        case False
        then have "ids store x = Some i" using a by simp
        then have "i < num_objects store" using lt by blast
        then show ?thesis by simp
      qed
    qed
    have f2: "\<forall>x y i. ((ids store)(obj \<mapsto> num_objects store)) x = Some i \<and>
                ((ids store)(obj \<mapsto> num_objects store)) y = Some i \<longrightarrow> x = y"
    proof (intro allI impI)
      fix x y i
      assume a: "((ids store)(obj \<mapsto> num_objects store)) x = Some i \<and>
                ((ids store)(obj \<mapsto> num_objects store)) y = Some i"
      show "x = y"
      proof (cases "x = obj")
        case True
        then have i: "i = num_objects store" using a by simp
        show ?thesis
        proof (cases "y = obj")
          case True
          then show ?thesis using \<open>x = obj\<close> by simp
        next
          case False
          then have "ids store y = Some i" using a by simp
          then have "i < num_objects store" using lt by blast
          then show ?thesis using i by simp
        qed
      next
        case False
        then have ix: "ids store x = Some i" using a by simp
        then have "i < num_objects store" using lt by blast
        then have "y \<noteq> obj" using a by auto
        then have "ids store y = Some i" using a by simp
        then show ?thesis using ix inj by blast
      qed
    qed
    have sel: "ids store' = (ids store)(obj \<mapsto> num_objects store)"
      "num_objects store' = num_objects store + 1"
      by (simp_all add: s')
    show ?thesis unfolding idstore_ok_def sel using f1 f2 by (intro conjI)
  next
    case (Some j)
    then have "store' = store" using assms by (simp add: idstore_get_def)
    then show ?thesis using ok by simp
  qed
qed

lemma span_id_props:
  assumes "span_id self sp = (i, self')"
  shows "extends self self'" and "sp \<in> known_spans self'"
    and "span_id_of self' sp = i"
    and "idstore_ok (span_id_store self) \<Longrightarrow> idstore_ok (span_id_store self')"
    and "known_spans self' = insert sp (known_spans self)"
proof -
  obtain st where g: "idstore_get (span_id_store self) sp = (i, st)"
    and s': "self' = self\<lparr>span_id_store := st\<rparr>"
    using assms by (auto simp: span_id_def split: prod.splits)
  note p = idstore_get_props[OF g]
  show "extends self self'" using p(2) by (simp add: extends_def s')
  show "sp \<in> known_spans self'" using p(1) by (auto simp: known_spans_def s')
  show "span_id_of self' sp = i"
    using p(1) by (simp add: span_id_of_def span_id_def idstore_get_def s')
  show "idstore_ok (span_id_store self')" if "idstore_ok (span_id_store self)"
    using p(3) that by (simp add: s')
  show "known_spans self' = insert sp (known_spans self)"
    using p(4) by (simp add: known_spans_def s')
qed

lemma group_id_props:
  assumes "group_id self g = (i, self')"
  shows "extends self self'" and "group_id_of self' g = i"
    and "span_id_store self' = span_id_store self"
    and "g \<in> dom (ids (group_id_store self'))"
proof -
  obtain st where g: "idstore_get (group_id_store self) g = (i, st)"
    and s': "self' = self\<lparr>group_id_store := st\<rparr>"
    using assms by (auto simp: group_id_def split: prod.splits)
  note p = idstore_get_props[OF g]
  show "extends self self'" using p(2) by (simp add: extends_def s')
  show "group_id_of self' g = i"
    using p(1) by (simp add: group_id_of_def group_id_def idstore_get_def s')
  show "span_id_store self' = span_id_store self" by (simp add: s')
  show "g \<in> dom (ids (group_id_store self'))" using p(1) by (auto simp: s')
qed

lemma span_id_of_extends:
  assumes "extends self self'" "sp \<in> known_spans self"
  shows "span_id_of self' sp = span_id_of self sp"
proof -
  obtain i where i: "ids (span_id_store self) sp = Some i"
    using assms(2) by (auto simp: known_spans_def)
  then have "ids (span_id_store self') sp = Some i"
    using assms(1) by (auto simp: extends_def map_le_def dom_def)
  then show ?thesis using i by (simp add: span_id_of_def span_id_def idstore_get_def)
qed

lemma group_id_of_extends:
  assumes "extends self self'" "g \<in> dom (ids (group_id_store self))"
  shows "group_id_of self' g = group_id_of self g"
proof -
  obtain i where i: "ids (group_id_store self) g = Some i"
    using assms(2) by auto
  then have "ids (group_id_store self') g = Some i"
    using assms(1) by (auto simp: extends_def map_le_def dom_def)
  then show ?thesis using i by (simp add: group_id_of_def group_id_def idstore_get_def)
qed

lemma known_spans_extends: "extends self self' \<Longrightarrow> known_spans self \<subseteq> known_spans self'"
  by (auto simp: extends_def known_spans_def dest: map_le_implies_dom_le)

lemma span_id_of_inj:
  assumes "idstore_ok (span_id_store self)" "x \<in> known_spans self" "y \<in> known_spans self"
    and "span_id_of self x = span_id_of self y"
  shows "x = y"
proof -
  obtain i j where i: "ids (span_id_store self) x = Some i" and j: "ids (span_id_store self) y = Some j"
    using assms(2,3) by (auto simp: known_spans_def)
  have "i = j" using assms(4) i j by (simp add: span_id_of_def span_id_def idstore_get_def)
  then show ?thesis using assms(1) i j unfolding idstore_ok_def by blast
qed

lemma span_ids_props:
  "span_ids self sps = (is, self') \<Longrightarrow>
     extends self self' \<and> is = map (span_id_of self') sps \<and>
     known_spans self' = known_spans self \<union> set sps \<and>
     (idstore_ok (span_id_store self) \<longrightarrow> idstore_ok (span_id_store self'))"
proof (induction sps arbitrary: self "is" self')
  case Nil
  then show ?case by (simp add: extends_refl)
next
  case (Cons sp rest)
  obtain i self1 where h1: "span_id self sp = (i, self1)" by (cases "span_id self sp")
  obtain is' self2 where h2: "span_ids self1 rest = (is', self2)" by (cases "span_ids self1 rest")
  have res: "is = i # is'" "self' = self2" using Cons.prems h1 h2 by simp_all
  note p = span_id_props[OF h1]
  note q = Cons.IH[OF h2]
  have "span_id_of self2 sp = i"
    using span_id_of_extends[of self1 self2 sp] q p(2,3) by simp
  moreover have "extends self self2" using p(1) q extends_trans by blast
  moreover have "known_spans self2 = known_spans self \<union> set (sp # rest)"
    using q p(5) by auto
  moreover have "idstore_ok (span_id_store self) \<longrightarrow> idstore_ok (span_id_store self2)"
    using p(4) q by blast
  ultimately show ?case using q by (simp add: res)
qed

lemma fragment_to_spans_loop_props:
  "fragment_to_spans_loop self ign frags m = (m', self') \<Longrightarrow>
     extends self self' \<and>
     (idstore_ok (span_id_store self) \<longrightarrow> idstore_ok (span_id_store self')) \<and>
     (\<forall>h \<in> set frags. hfrag_is_grouped h \<longrightarrow>
         {sp \<in> set (hfrag_spans h). sp \<notin> ign} \<subseteq> known_spans self') \<and>
     (\<forall>k. m' k =
        (if filter (\<lambda>h. hfrag_is_grouped h \<and> hfrag_id h = k) frags = [] then m k
         else Some (recorded_ids self' ign
                      (last (filter (\<lambda>h. hfrag_is_grouped h \<and> hfrag_id h = k) frags)))))"
proof (induction frags arbitrary: self m m' self')
  case Nil
  then show ?case by (simp add: extends_refl)
next
  case (Cons h rest)
  show ?case
  proof (cases "hfrag_is_grouped h")
    case False
    then have "fragment_to_spans_loop self ign rest m = (m', self')" using Cons.prems by simp
    from Cons.IH[OF this] show ?thesis using False by simp
  next
    case True
    obtain "is" self1 where
      h1: "span_ids self (filter (\<lambda>sp. sp \<notin> ign) (hfrag_spans h)) = (is, self1)"
      by (cases "span_ids self (filter (\<lambda>sp. sp \<notin> ign) (hfrag_spans h))")
    have h2: "fragment_to_spans_loop self1 ign rest (m(hfrag_id h \<mapsto> is)) = (m', self')"
      using Cons.prems True h1 by simp
    note p = span_ids_props[OF h1]
    note q = Cons.IH[OF h2]
    have ext1: "extends self1 self'" using q by blast
    have known1: "{sp \<in> set (hfrag_spans h). sp \<notin> ign} \<subseteq> known_spans self1"
      using p by auto
    have is_eq: "is = recorded_ids self' ign h"
    proof -
      have "span_id_of self' sp = span_id_of self1 sp"
        if "sp \<in> set (filter (\<lambda>sp. sp \<notin> ign) (hfrag_spans h))" for sp
        using span_id_of_extends[OF ext1, of sp] known1 that by auto
      then show ?thesis using p by (simp add: recorded_ids_def)
    qed
    have a: "extends self self'" using p ext1 extends_trans by blast
    have b: "idstore_ok (span_id_store self) \<longrightarrow> idstore_ok (span_id_store self')"
      using p q by blast
    have c: "\<forall>h' \<in> set (h # rest). hfrag_is_grouped h' \<longrightarrow>
         {sp \<in> set (hfrag_spans h'). sp \<notin> ign} \<subseteq> known_spans self'"
      using q known1 known_spans_extends[OF ext1] by auto
    have d: "m' k =
        (if filter (\<lambda>h'. hfrag_is_grouped h' \<and> hfrag_id h' = k) (h # rest) = [] then m k
         else Some (recorded_ids self' ign
                      (last (filter (\<lambda>h'. hfrag_is_grouped h' \<and> hfrag_id h' = k) (h # rest)))))"
      for k
    proof -
      from q have mk: "m' k =
        (if filter (\<lambda>h'. hfrag_is_grouped h' \<and> hfrag_id h' = k) rest = []
         then (m(hfrag_id h \<mapsto> is)) k
         else Some (recorded_ids self' ign
                      (last (filter (\<lambda>h'. hfrag_is_grouped h' \<and> hfrag_id h' = k) rest))))"
        by blast
      show ?thesis unfolding mk using True is_eq by simp
    qed
    show ?thesis using a b c d by blast
  qed
qed

lemma group_spans_loop_props:
  "group_spans_loop self gid sps m = (m', self') \<Longrightarrow>
     extends self self' \<and>
     (idstore_ok (span_id_store self) \<longrightarrow> idstore_ok (span_id_store self')) \<and>
     known_spans self' = known_spans self \<union> set sps \<and>
     (\<forall>i. m' i = (if i \<in> span_id_of self' ` set sps then Some gid else m i))"
proof (induction sps arbitrary: self m m' self')
  case Nil
  then show ?case by (simp add: extends_refl)
next
  case (Cons sp rest)
  obtain i self1 where h1: "span_id self sp = (i, self1)" by (cases "span_id self sp")
  have h2: "group_spans_loop self1 gid rest (m(i \<mapsto> gid)) = (m', self')"
    using Cons.prems h1 by simp
  note p = span_id_props[OF h1]
  note q = Cons.IH[OF h2]
  have ext1: "extends self1 self'" using q by blast
  have i_eq: "span_id_of self' sp = i"
    using span_id_of_extends[OF ext1 p(2)] p(3) by simp
  have a: "extends self self'" using p(1) ext1 extends_trans by blast
  have b: "idstore_ok (span_id_store self) \<longrightarrow> idstore_ok (span_id_store self')"
    using p(4) q by blast
  have c: "known_spans self' = known_spans self \<union> set (sp # rest)"
    using q p(5) by auto
  have d: "m' j = (if j \<in> span_id_of self' ` set (sp # rest) then Some gid else m j)" for j
  proof -
    from q have "m' j = (if j \<in> span_id_of self' ` set rest then Some gid else (m(i \<mapsto> gid)) j)"
      by blast
    then show ?thesis using i_eq by auto
  qed
  show ?case using a b c d by blast
qed

lemma span_id_of_image_extends:
  assumes "extends self self'" "S \<subseteq> known_spans self"
  shows "span_id_of self' ` S = span_id_of self ` S"
  using span_id_of_extends[OF assms(1)] assms(2) by (auto simp: image_iff subset_iff)

lemma span_to_group_loop_props:
  "span_to_group_loop ord self groups m = (m', self') \<Longrightarrow>
     extends self self' \<and>
     (idstore_ok (span_id_store self) \<longrightarrow> idstore_ok (span_id_store self')) \<and>
     (\<forall>g \<in> set groups. set (ord (group_spans g)) \<subseteq> known_spans self' \<and>
                          g \<in> dom (ids (group_id_store self'))) \<and>
     (\<forall>i. m' i =
        (if filter (\<lambda>g. i \<in> span_id_of self' ` set (ord (group_spans g))) groups = [] then m i
         else Some (group_id_of self'
                 (last (filter (\<lambda>g. i \<in> span_id_of self' ` set (ord (group_spans g))) groups)))))"
proof (induction groups arbitrary: self m m' self')
  case Nil
  then show ?case by (simp add: extends_refl)
next
  case (Cons g rest)
  obtain gid self1 where h1: "group_id self g = (gid, self1)" by (cases "group_id self g")
  obtain m1 self2 where h2: "group_spans_loop self1 gid (ord (group_spans g)) m = (m1, self2)"
    by (cases "group_spans_loop self1 gid (ord (group_spans g)) m")
  have h3: "span_to_group_loop ord self2 rest m1 = (m', self')"
    using Cons.prems h1 h2 by simp
  note p = group_id_props[OF h1]
  note q = group_spans_loop_props[OF h2]
  note r = Cons.IH[OF h3]
  have ext12: "extends self1 self2" and ext2: "extends self2 self'" using q r by blast+
  have ext1: "extends self1 self'" using ext12 ext2 extends_trans by blast
  have known2: "set (ord (group_spans g)) \<subseteq> known_spans self2" using q by auto
  have img: "span_id_of self' ` set (ord (group_spans g)) = span_id_of self2 ` set (ord (group_spans g))"
    using span_id_of_image_extends[OF ext2 known2] .
  have gid_eq: "group_id_of self' g = gid"
    using group_id_of_extends[OF ext1 p(4)] p(2) by simp
  have a: "extends self self'" using p(1) ext1 extends_trans by blast
  have b: "idstore_ok (span_id_store self) \<longrightarrow> idstore_ok (span_id_store self')"
    using p(3) q r by simp
  have gdom: "g \<in> dom (ids (group_id_store self'))"
    using p(4) ext1 by (auto simp: extends_def dest: map_le_implies_dom_le)
  have c: "\<forall>g' \<in> set (g # rest). set (ord (group_spans g')) \<subseteq> known_spans self' \<and>
                          g' \<in> dom (ids (group_id_store self'))"
    using r known2 known_spans_extends[OF ext2] gdom by auto
  have d: "m' i =
        (if filter (\<lambda>g. i \<in> span_id_of self' ` set (ord (group_spans g))) (g # rest) = [] then m i
         else Some (group_id_of self'
                 (last (filter (\<lambda>g. i \<in> span_id_of self' ` set (ord (group_spans g))) (g # rest)))))"
    for i
  proof -
    from r have mi: "m' i =
        (if filter (\<lambda>g. i \<in> span_id_of self' ` set (ord (group_spans g))) rest = [] then m1 i
         else Some (group_id_of self'
                 (last (filter (\<lambda>g. i \<in> span_id_of self' ` set (ord (group_spans g))) rest))))"
      by blast
    from q have m1i: "m1 i = (if i \<in> span_id_of self2 ` set (ord (group_spans g)) then Some gid else m i)"
      by blast
    show ?thesis unfolding mi m1i img[symmetric] using gid_eq by simp
  qed
  show ?case using a b c d by blast
qed

lemma filter_distinct_key:
  "distinct (map f xs) \<Longrightarrow> x \<in> set xs \<Longrightarrow> P x \<Longrightarrow> filter (\<lambda>y. P y \<and> f y = f x) xs = [x]"
proof (induction xs)
  case Nil
  then show ?case by simp
next
  case (Cons a xs)
  show ?case
  proof (cases "a = x")
    case True
    have "f x \<notin> f ` set xs" using Cons.prems(1) True by simp
    then have "\<forall>y \<in> set xs. f y \<noteq> f x" by (metis imageI)
    then have "filter (\<lambda>y. P y \<and> f y = f x) xs = []" by (simp add: filter_empty_conv)
    then show ?thesis using True Cons.prems(3) by simp
  next
    case False
    then have x: "x \<in> set xs" using Cons.prems(2) by simp
    then have "f x \<in> f ` set xs" by (rule imageI)
    then have "f a \<noteq> f x" using Cons.prems(1) by auto
    then show ?thesis using Cons.IH x Cons.prems by simp
  qed
qed

lemma last_filter_only:
  assumes "\<forall>y \<in> set xs. P y \<longrightarrow> y = x" "x \<in> set xs" "P x"
  shows "last (filter P xs) = x"
proof -
  have ne: "filter P xs \<noteq> []" using assms(2,3) by (auto simp: filter_empty_conv)
  then have "last (filter P xs) \<in> set (filter P xs)" by (rule last_in_set)
  then show ?thesis using assms(1) by auto
qed

lemma recorded_ids_extends:
  assumes "extends self self'" "{sp \<in> set (hfrag_spans h). sp \<notin> ign} \<subseteq> known_spans self"
  shows "recorded_ids self' ign h = recorded_ids self ign h"
  using span_id_of_extends[OF assms(1)] assms(2) by (auto simp: recorded_ids_def)

lemma data_unfold:
  assumes "data ord self frags groups ign = (d, self')"
  obtains fm self1 sg where
    "fragment_to_spans_loop self ign frags Map.empty = (fm, self1)"
    "span_to_group_loop ord self1 groups Map.empty = (sg, self')"
    "data_fragment_to_spans d = fm" "data_span_to_group d = sg"
proof -
  obtain fm self1 where a: "fragment_to_spans_loop self ign frags Map.empty = (fm, self1)"
    by (cases "fragment_to_spans_loop self ign frags Map.empty")
  obtain sg self2 where b: "span_to_group_loop ord self1 groups Map.empty = (sg, self2)"
    by (cases "span_to_group_loop ord self1 groups Map.empty")
  have "d = \<lparr>data_span_to_group = sg, data_fragment_to_spans = fm\<rparr>" "self' = self2"
    using assms a b by (simp_all add: data_def)
  then show ?thesis using that a b by simp
qed

text \<open>
  Claim C6, amended. For a renderer whose span ids are sound and an iteration order that
  enumerates the spans of every group, \<^verbatim>\<open>data\<close> returns an index in which
  \<open>fragment_to_spans\<close> has a key for exactly the ids of the grouped fragments, each
  mapped to the ids of the spans, ignored spans left out, of the last grouped fragment
  that carries the id: of the fragment itself when the fragment ids are pairwise
  distinct. \<open>span_to_group\<close> has a key for exactly the ids of the spans of the groups, and
  maps the id of every span of every group to the id of the last group that holds the
  span: of the group itself when no span belongs to two groups.
\<close>

theorem data_index:
  assumes dt: "data ord self frags groups ign = (d, self')"
    and ok: "idstore_ok (span_id_store self)"
    and it: "iterates ord (\<Union>g \<in> set groups. group_spans g)"
  shows "dom (data_fragment_to_spans d) = hfrag_id ` {h \<in> set frags. hfrag_is_grouped h} \<and>
         (\<forall>h \<in> set frags. hfrag_is_grouped h \<longrightarrow>
            data_fragment_to_spans d (hfrag_id h) =
              Some (recorded_ids self' ign
                (last (filter (\<lambda>h'. hfrag_is_grouped h' \<and> hfrag_id h' = hfrag_id h) frags)))) \<and>
         (distinct (map hfrag_id frags) \<longrightarrow>
            (\<forall>h \<in> set frags. hfrag_is_grouped h \<longrightarrow>
               data_fragment_to_spans d (hfrag_id h) = Some (recorded_ids self' ign h))) \<and>
         dom (data_span_to_group d) = span_id_of self' ` (\<Union>g \<in> set groups. group_spans g) \<and>
         (\<forall>g \<in> set groups. \<forall>sp \<in> group_spans g.
            data_span_to_group d (span_id_of self' sp) =
              Some (group_id_of self' (last (filter (\<lambda>g'. sp \<in> group_spans g') groups)))) \<and>
         ((\<forall>g1 \<in> set groups. \<forall>g2 \<in> set groups. g1 \<noteq> g2 \<longrightarrow> group_spans g1 \<inter> group_spans g2 = {}) \<longrightarrow>
            (\<forall>g \<in> set groups. \<forall>sp \<in> group_spans g.
               data_span_to_group d (span_id_of self' sp) = Some (group_id_of self' g)))"
proof -
  from dt obtain fm self1 sg where
    l1: "fragment_to_spans_loop self ign frags Map.empty = (fm, self1)" and
    l2: "span_to_group_loop ord self1 groups Map.empty = (sg, self')" and
    dfm: "data_fragment_to_spans d = fm" and dsg: "data_span_to_group d = sg"
    by (rule data_unfold)
  note p = fragment_to_spans_loop_props[OF l1]
  note q = span_to_group_loop_props[OF l2]
  note p2 = p[THEN conjunct2, THEN conjunct1]
  note p3 = p[THEN conjunct2, THEN conjunct2, THEN conjunct1]
  note p4 = p[THEN conjunct2, THEN conjunct2, THEN conjunct2]
  note q1 = q[THEN conjunct1]
  note q2 = q[THEN conjunct2, THEN conjunct1]
  note q3 = q[THEN conjunct2, THEN conjunct2, THEN conjunct1]
  note q4 = q[THEN conjunct2, THEN conjunct2, THEN conjunct2]
  have ext: "extends self1 self'" by (rule q1)
  have ok': "idstore_ok (span_id_store self')" using p2 q2 ok by blast
  have ord_eq: "set (ord (group_spans g)) = group_spans g" if "g \<in> set groups" for g
  proof -
    have "group_spans g \<subseteq> (\<Union>g \<in> set groups. group_spans g)" using that by blast
    then show ?thesis using it unfolding iterates_def by blast
  qed
  have known: "group_spans g \<subseteq> known_spans self'" if "g \<in> set groups" for g
    using q3 that ord_eq by blast
  \<comment> \<open>the fragments\<close>
  have fm_k: "fm k =
        (if filter (\<lambda>h. hfrag_is_grouped h \<and> hfrag_id h = k) frags = [] then None
         else Some (recorded_ids self' ign
                      (last (filter (\<lambda>h. hfrag_is_grouped h \<and> hfrag_id h = k) frags))))" for k
  proof (cases "filter (\<lambda>h. hfrag_is_grouped h \<and> hfrag_id h = k) frags = []")
    case True
    then show ?thesis using p4 by simp
  next
    case False
    let ?l = "last (filter (\<lambda>h. hfrag_is_grouped h \<and> hfrag_id h = k) frags)"
    have "?l \<in> set (filter (\<lambda>h. hfrag_is_grouped h \<and> hfrag_id h = k) frags)"
      using False by (rule last_in_set)
    then have "?l \<in> set frags" "hfrag_is_grouped ?l" by auto
    then have "{sp \<in> set (hfrag_spans ?l). sp \<notin> ign} \<subseteq> known_spans self1" using p3 by blast
    then have "recorded_ids self' ign ?l = recorded_ids self1 ign ?l"
      by (rule recorded_ids_extends[OF ext])
    then show ?thesis using p4 False by simp
  qed
  have A: "dom fm = hfrag_id ` {h \<in> set frags. hfrag_is_grouped h}"
  proof -
    have "k \<in> dom fm \<longleftrightarrow> k \<in> hfrag_id ` {h \<in> set frags. hfrag_is_grouped h}" for k
    proof -
      have "k \<in> dom fm \<longleftrightarrow> filter (\<lambda>h. hfrag_is_grouped h \<and> hfrag_id h = k) frags \<noteq> []"
        by (simp add: fm_k[of k] dom_def)
      also have "\<dots> \<longleftrightarrow> (\<exists>h \<in> set frags. hfrag_is_grouped h \<and> hfrag_id h = k)"
        by (simp add: filter_empty_conv)
      also have "\<dots> \<longleftrightarrow> k \<in> hfrag_id ` {h \<in> set frags. hfrag_is_grouped h}"
        by blast
      finally show ?thesis .
    qed
    then show ?thesis by (intro set_eqI)
  qed
  have B: "\<forall>h \<in> set frags. hfrag_is_grouped h \<longrightarrow>
            fm (hfrag_id h) =
              Some (recorded_ids self' ign
                (last (filter (\<lambda>h'. hfrag_is_grouped h' \<and> hfrag_id h' = hfrag_id h) frags)))"
  proof (intro ballI impI)
    fix h assume h: "h \<in> set frags" "hfrag_is_grouped h"
    then have "filter (\<lambda>h'. hfrag_is_grouped h' \<and> hfrag_id h' = hfrag_id h) frags \<noteq> []"
      by (auto simp: filter_empty_conv)
    then show "fm (hfrag_id h) =
              Some (recorded_ids self' ign
                (last (filter (\<lambda>h'. hfrag_is_grouped h' \<and> hfrag_id h' = hfrag_id h) frags)))"
      by (simp add: fm_k[of "hfrag_id h"])
  qed
  have C: "distinct (map hfrag_id frags) \<longrightarrow>
            (\<forall>h \<in> set frags. hfrag_is_grouped h \<longrightarrow> fm (hfrag_id h) = Some (recorded_ids self' ign h))"
  proof (intro impI ballI)
    fix h assume d: "distinct (map hfrag_id frags)" and h: "h \<in> set frags" "hfrag_is_grouped h"
    have "filter (\<lambda>h'. hfrag_is_grouped h' \<and> hfrag_id h' = hfrag_id h) frags = [h]"
      using filter_distinct_key[OF d h(1), of hfrag_is_grouped] h(2) by simp
    then show "fm (hfrag_id h) = Some (recorded_ids self' ign h)" using B h by simp
  qed
  \<comment> \<open>the groups\<close>
  have mem: "span_id_of self' sp \<in> span_id_of self' ` set (ord (group_spans g')) \<longleftrightarrow> sp \<in> group_spans g'"
    if g': "g' \<in> set groups" and ksp: "sp \<in> known_spans self'" for g' sp
  proof
    assume "span_id_of self' sp \<in> span_id_of self' ` set (ord (group_spans g'))"
    then obtain sp' where sp': "sp' \<in> group_spans g'" "span_id_of self' sp = span_id_of self' sp'"
      using ord_eq[OF g'] by auto
    then have "sp' \<in> known_spans self'" using known[OF g'] by blast
    then have "sp = sp'" using span_id_of_inj[OF ok' ksp _ sp'(2)] by simp
    then show "sp \<in> group_spans g'" using sp'(1) by simp
  next
    assume "sp \<in> group_spans g'"
    then show "span_id_of self' sp \<in> span_id_of self' ` set (ord (group_spans g'))"
      using ord_eq[OF g'] by simp
  qed
  have sg_i: "sg i =
        (if filter (\<lambda>g. i \<in> span_id_of self' ` set (ord (group_spans g))) groups = [] then None
         else Some (group_id_of self'
                 (last (filter (\<lambda>g. i \<in> span_id_of self' ` set (ord (group_spans g))) groups))))" for i
    using q4 by simp
  have D: "dom sg = span_id_of self' ` (\<Union>g \<in> set groups. group_spans g)"
  proof -
    have "i \<in> dom sg \<longleftrightarrow> i \<in> span_id_of self' ` (\<Union>g \<in> set groups. group_spans g)" for i
    proof -
      have "i \<in> dom sg \<longleftrightarrow>
            filter (\<lambda>g. i \<in> span_id_of self' ` set (ord (group_spans g))) groups \<noteq> []"
        by (simp add: sg_i[of i] dom_def)
      also have "\<dots> \<longleftrightarrow> (\<exists>g \<in> set groups. i \<in> span_id_of self' ` set (ord (group_spans g)))"
        by (simp add: filter_empty_conv)
      also have "\<dots> \<longleftrightarrow> (\<exists>g \<in> set groups. i \<in> span_id_of self' ` group_spans g)"
        using ord_eq by simp
      also have "\<dots> \<longleftrightarrow> i \<in> span_id_of self' ` (\<Union>g \<in> set groups. group_spans g)"
        by blast
      finally show ?thesis .
    qed
    then show ?thesis by (intro set_eqI)
  qed
  have E: "\<forall>g \<in> set groups. \<forall>sp \<in> group_spans g.
            sg (span_id_of self' sp) =
              Some (group_id_of self' (last (filter (\<lambda>g'. sp \<in> group_spans g') groups)))"
  proof (intro ballI)
    fix g sp assume g: "g \<in> set groups" and sp: "sp \<in> group_spans g"
    have k: "sp \<in> known_spans self'" using known[OF g] sp by blast
    have f: "filter (\<lambda>g'. span_id_of self' sp \<in> span_id_of self' ` set (ord (group_spans g'))) groups
          = filter (\<lambda>g'. sp \<in> group_spans g') groups"
      by (rule filter_cong[OF refl]) (rule mem[OF _ k])
    have "filter (\<lambda>g'. sp \<in> group_spans g') groups \<noteq> []"
      using g sp by (auto simp: filter_empty_conv)
    then show "sg (span_id_of self' sp) =
              Some (group_id_of self' (last (filter (\<lambda>g'. sp \<in> group_spans g') groups)))"
      using sg_i[of "span_id_of self' sp"] unfolding f by simp
  qed
  have F: "(\<forall>g1 \<in> set groups. \<forall>g2 \<in> set groups. g1 \<noteq> g2 \<longrightarrow> group_spans g1 \<inter> group_spans g2 = {}) \<longrightarrow>
            (\<forall>g \<in> set groups. \<forall>sp \<in> group_spans g.
               sg (span_id_of self' sp) = Some (group_id_of self' g))"
  proof (intro impI ballI)
    fix g sp
    assume dis: "\<forall>g1 \<in> set groups. \<forall>g2 \<in> set groups. g1 \<noteq> g2 \<longrightarrow> group_spans g1 \<inter> group_spans g2 = {}"
      and g: "g \<in> set groups" and sp: "sp \<in> group_spans g"
    have only: "\<forall>g' \<in> set groups. sp \<in> group_spans g' \<longrightarrow> g' = g"
    proof (intro ballI impI)
      fix g' assume g': "g' \<in> set groups" and sp': "sp \<in> group_spans g'"
      show "g' = g"
      proof (rule ccontr)
        assume "g' \<noteq> g"
        then have "group_spans g' \<inter> group_spans g = {}" using dis g' g by blast
        then show False using sp sp' by blast
      qed
    qed
    have l: "last (filter (\<lambda>g'. sp \<in> group_spans g') groups) = g"
      by (rule last_filter_only[OF only g sp])
    have "sg (span_id_of self' sp) =
              Some (group_id_of self' (last (filter (\<lambda>g'. sp \<in> group_spans g') groups)))"
      using E g sp by blast
    then show "sg (span_id_of self' sp) = Some (group_id_of self' g)" by (simp only: l)
  qed
  show ?thesis unfolding dfm dsg using A B C D E F by (intro conjI)
qed

lemma G_neq: "G1 \<noteq> G2" "G1 \<noteq> G3" "G2 \<noteq> G3"
  using S1_neq_S2 by (auto simp: G1_def G2_def G3_def doubleton_eq_iff)

lemma order12:
  "order_of_list [S1, S2] {S1} = [S1]" "order_of_list [S1, S2] {S2} = [S2]"
  "order_of_list [S1, S2] {S1, S2} = [S1, S2]"
  using S1_neq_S2 by (auto simp: order_of_list_def)

lemma group_spans_G:
  "group_spans G1 = {S1}" "group_spans G2 = {S1, S2}" "group_spans G3 = {S2}"
  by (simp_all add: G1_def G2_def G3_def)

lemma data_twins:
  "data (order_of_list [S1, S2]) renderer_init [twin_a, twin_b] [G1, G2] {} =
     (\<lparr>data_span_to_group = [0 \<mapsto> 1, 1 \<mapsto> 1],
       data_fragment_to_spans = [str_lit ''frag0'' \<mapsto> [1]]\<rparr>,
      \<lparr>frag_id_counter = - 1,
       span_id_store = \<lparr>ids = [S1 \<mapsto> 0, S2 \<mapsto> 1], num_objects = 2\<rparr>,
       group_id_store = \<lparr>ids = [G1 \<mapsto> 0, G2 \<mapsto> 1], num_objects = 2\<rparr>\<rparr>)"
  using S1_neq_S2 G_neq
  by (simp add: data_def twin_a_def twin_b_def renderer_init_def idstore_init_def
      span_id_def group_id_def idstore_get_def order12 group_spans_G)

lemma frag_ids_neq: "str_lit ''frag0'' \<noteq> str_lit ''frag1''"
  by (simp add: str_lit_def)

lemma data_singles:
  "data (order_of_list [S1, S2]) renderer_init [twin_a, single_c] [G1, G3] {} =
     (\<lparr>data_span_to_group = [0 \<mapsto> 0, 1 \<mapsto> 1],
       data_fragment_to_spans = [str_lit ''frag0'' \<mapsto> [0], str_lit ''frag1'' \<mapsto> [1]]\<rparr>,
      \<lparr>frag_id_counter = - 1,
       span_id_store = \<lparr>ids = [S1 \<mapsto> 0, S2 \<mapsto> 1], num_objects = 2\<rparr>,
       group_id_store = \<lparr>ids = [G1 \<mapsto> 0, G3 \<mapsto> 1], num_objects = 2\<rparr>\<rparr>)"
  using S1_neq_S2 G_neq
  by (simp add: data_def twin_a_def single_c_def renderer_init_def idstore_init_def
      span_id_def group_id_def idstore_get_def order12 group_spans_G)

lemma idstore_ok_init: "idstore_ok idstore_init"
  by (simp add: idstore_ok_def idstore_init_def)

text \<open>
  Claim C6, as stated, holds for every list of fragments and every list of groups. Both
  dictionaries are filled by assignment, so a later entry replaces an earlier one. With
  two grouped fragments of the same id the entry of the first holds the span ids of the
  second, and with a span in two groups the id of the span is mapped to the second
  group, not to the first.
\<close>

theorem data_overwrite_counterexample:
  "twin_a \<in> set [twin_a, twin_b] \<and> hfrag_is_grouped twin_a \<and>
   data_fragment_to_spans
     (fst (data (order_of_list [S1, S2]) renderer_init [twin_a, twin_b] [G1, G2] {}))
     (hfrag_id twin_a) = Some [1] \<and>
   recorded_ids (snd (data (order_of_list [S1, S2]) renderer_init [twin_a, twin_b] [G1, G2] {}))
     {} twin_a = [0] \<and>
   G1 \<in> set [G1, G2] \<and> S1 \<in> group_spans G1 \<and>
   data_span_to_group
     (fst (data (order_of_list [S1, S2]) renderer_init [twin_a, twin_b] [G1, G2] {}))
     (span_id_of (snd (data (order_of_list [S1, S2]) renderer_init [twin_a, twin_b] [G1, G2] {})) S1)
     = Some 1 \<and>
   group_id_of (snd (data (order_of_list [S1, S2]) renderer_init [twin_a, twin_b] [G1, G2] {})) G1
     = 0"
  unfolding data_twins
  using S1_neq_S2 G_neq
  by (simp add: recorded_ids_def span_id_of_def group_id_of_def span_id_def group_id_def
      idstore_get_def twin_a_def group_spans_G)

text \<open>
  Two fragments with ids of their own and two groups without a common span satisfy the
  hypotheses of the amended C6.
\<close>

theorem data_index_witness:
  "idstore_ok (span_id_store renderer_init) \<and>
   iterates (order_of_list [S1, S2]) (\<Union>g \<in> set [G1, G3]. group_spans g) \<and>
   distinct (map hfrag_id [twin_a, single_c]) \<and>
   group_spans G1 \<inter> group_spans G3 = {} \<and>
   (\<exists>d self'.
      data (order_of_list [S1, S2]) renderer_init [twin_a, single_c] [G1, G3] {} = (d, self') \<and>
      dom (data_fragment_to_spans d) = {str_lit ''frag0'', str_lit ''frag1''} \<and>
      data_fragment_to_spans d (hfrag_id twin_a) = Some (recorded_ids self' {} twin_a) \<and>
      recorded_ids self' {} twin_a = [0] \<and>
      data_span_to_group d (span_id_of self' S2) = Some (group_id_of self' G3) \<and>
      group_id_of self' G3 = 1)"
proof -
  let ?ord = "order_of_list [S1, S2]"
  obtain d self' where dt: "data ?ord renderer_init [twin_a, single_c] [G1, G3] {} = (d, self')"
    and s': "self' = \<lparr>frag_id_counter = - 1,
       span_id_store = \<lparr>ids = [S1 \<mapsto> 0, S2 \<mapsto> 1], num_objects = 2\<rparr>,
       group_id_store = \<lparr>ids = [G1 \<mapsto> 0, G3 \<mapsto> 1], num_objects = 2\<rparr>\<rparr>"
    using data_singles by simp
  have ok: "idstore_ok (span_id_store renderer_init)"
    by (simp add: renderer_init_def idstore_ok_init)
  have U: "(\<Union>g \<in> set [G1, G3]. group_spans g) = set [S1, S2]"
    by (auto simp: group_spans_G)
  have it: "iterates ?ord (\<Union>g \<in> set [G1, G3]. group_spans g)"
    unfolding U by (rule iterates_order_of_list)
  have dis: "distinct (map hfrag_id [twin_a, single_c])"
    using frag_ids_neq by (simp add: twin_a_def single_c_def)
  have disj: "group_spans G1 \<inter> group_spans G3 = {}"
    using S1_neq_S2 by (simp add: group_spans_G)
  have disj_all: "\<forall>g1 \<in> set [G1, G3]. \<forall>g2 \<in> set [G1, G3]. g1 \<noteq> g2 \<longrightarrow> group_spans g1 \<inter> group_spans g2 = {}"
    using S1_neq_S2 by (auto simp: group_spans_G)
  note idx = data_index[OF dt ok it]
  have grouped: "{h \<in> set [twin_a, single_c]. hfrag_is_grouped h} = {twin_a, single_c}"
    by (auto simp: twin_a_def single_c_def)
  have dom_eq: "dom (data_fragment_to_spans d) = {str_lit ''frag0'', str_lit ''frag1''}"
    unfolding idx[THEN conjunct1] grouped by (simp add: twin_a_def single_c_def)
  have fa: "data_fragment_to_spans d (hfrag_id twin_a) = Some (recorded_ids self' {} twin_a)"
    using idx[THEN conjunct2, THEN conjunct2, THEN conjunct1] dis
    by (simp add: twin_a_def)
  have ra: "recorded_ids self' {} twin_a = [0]"
    using S1_neq_S2 by (simp add: s' recorded_ids_def span_id_of_def span_id_def idstore_get_def twin_a_def)
  have sg: "data_span_to_group d (span_id_of self' S2) = Some (group_id_of self' G3)"
    using idx[THEN conjunct2, THEN conjunct2, THEN conjunct2, THEN conjunct2, THEN conjunct2] disj_all
    by (simp add: group_spans_G)
  have g3: "group_id_of self' G3 = 1"
    using G_neq by (simp add: s' group_id_of_def group_id_def idstore_get_def)
  have ex: "\<exists>d self'.
      data ?ord renderer_init [twin_a, single_c] [G1, G3] {} = (d, self') \<and>
      dom (data_fragment_to_spans d) = {str_lit ''frag0'', str_lit ''frag1''} \<and>
      data_fragment_to_spans d (hfrag_id twin_a) = Some (recorded_ids self' {} twin_a) \<and>
      recorded_ids self' {} twin_a = [0] \<and>
      data_span_to_group d (span_id_of self' S2) = Some (group_id_of self' G3) \<and>
      group_id_of self' G3 = 1"
    using dt dom_eq fa ra sg g3 by (intro exI[of _ d] exI[of _ self'] conjI)
  show ?thesis by (intro conjI) (rule ok it dis disj ex)+
qed

subsection \<open>Fragment ids\<close>

lemma digits_nonempty: "digits n \<noteq> []"
  by (subst digits.simps) simp

lemma digits_last: "last (digits n) = 48 + n mod 10"
  by (subst digits.simps) (simp add: digits_nonempty)

lemma digits_butlast: "butlast (digits n) = (if n < 10 then [] else digits (n div 10))"
  by (subst digits.simps) (simp add: butlast_append)

lemma digits_range: "c \<in> set (digits n) \<Longrightarrow> 48 \<le> c"
proof (induction n rule: digits.induct)
  case (1 n)
  show ?case
  proof (cases "n < 10")
    case True
    then show ?thesis using "1.prems" by (subst (asm) digits.simps) simp
  next
    case False
    then have "c \<in> set (digits (n div 10)) \<or> c = 48 + n mod 10"
      using "1.prems" by (subst (asm) digits.simps) auto
    then show ?thesis using "1.IH"[OF False] by auto
  qed
qed

lemma digits_inj: "digits m = digits n \<Longrightarrow> m = n"
proof (induction m arbitrary: n rule: digits.induct)
  case (1 m)
  have md: "m mod 10 = n mod 10"
    using digits_last[of m] digits_last[of n] "1.prems" by simp
  have bl: "butlast (digits m) = butlast (digits n)" using "1.prems" by simp
  show ?case
  proof (cases "m < 10")
    case True
    then have "n < 10" using bl digits_butlast[of m] digits_butlast[of n] digits_nonempty
      by (metis)
    then show ?thesis using True md by simp
  next
    case False
    then have n10: "\<not> n < 10"
      using bl digits_butlast[of m] digits_butlast[of n] digits_nonempty by metis
    then have "digits (m div 10) = digits (n div 10)"
      using bl False by (simp add: digits_butlast)
    then have "m div 10 = n div 10" using "1.IH"[OF False] by blast
    then show ?thesis using md by (metis div_mult_mod_eq)
  qed
qed

lemma str_int_inj: "str_int i = str_int j \<Longrightarrow> i = j"
proof -
  assume eq: "str_int i = str_int j"
  have no_minus: "hd (digits n) \<noteq> 45" for n
  proof -
    have "hd (digits n) \<in> set (digits n)" using digits_nonempty by simp
    then have "48 \<le> hd (digits n)" by (rule digits_range)
    then show ?thesis by simp
  qed
  have hd_eq: "digits n \<noteq> 45 # xs" for n xs
    using no_minus[of n] by (metis list.sel(1))
  consider "i < 0" "j < 0" | "i < 0" "\<not> j < 0" | "\<not> i < 0" "j < 0" | "\<not> i < 0" "\<not> j < 0"
    by blast
  then show "i = j"
  proof cases
    case 1
    then have "digits (nat (- i)) = digits (nat (- j))" using eq by (simp add: str_int_def)
    then have "nat (- i) = nat (- j)" by (rule digits_inj)
    then show ?thesis using 1 by simp
  next
    case 2
    then have "digits (nat j) = 45 # digits (nat (- i))" using eq by (simp add: str_int_def)
    then show ?thesis using hd_eq by blast
  next
    case 3
    then have "digits (nat i) = 45 # digits (nat (- j))" using eq by (simp add: str_int_def)
    then show ?thesis using hd_eq by blast
  next
    case 4
    then have "digits (nat i) = digits (nat j)" using eq by (simp add: str_int_def)
    then have "nat i = nat j" by (rule digits_inj)
    then show ?thesis using 4 by simp
  qed
qed

lemma frag_name_inj: "frag_name i = frag_name j \<Longrightarrow> i = j"
  by (simp add: frag_name_def str_int_inj)

lemma inj_frag_name: "inj frag_name"
  by (rule injI) (rule frag_name_inj)

lemma map_upt_add:
  "map f [0..<a + b] = map f [0..<a] @ map (\<lambda>i. f (a + i)) [0..<b]"
  by (induction b) simp_all

lemma html_fragments_ids:
  assumes "html_fragments ord fs self f spans ign = Inr (hfrags, self')"
  shows "map hfrag_id hfrags =
           map (\<lambda>i. frag_name (frag_id_counter self + 1 + int i)) [0..<length hfrags]"
    and "self' = self\<lparr>frag_id_counter := frag_id_counter self + int (length hfrags)\<rparr>"
proof -
  obtain frags where hf: "hfrags = fst (html_fragments_loop self ign frags)"
    and s': "self' = self\<lparr>frag_id_counter := frag_id_counter self + int (length frags)\<rparr>"
    using html_fragments_Inr[OF assms] by blast
  have len: "length hfrags = length frags" by (simp add: hf html_fragments_loop_length)
  show "map hfrag_id hfrags =
           map (\<lambda>i. frag_name (frag_id_counter self + 1 + int i)) [0..<length hfrags]"
    unfolding len unfolding hf by (rule html_fragments_loop_maps(3))
  show "self' = self\<lparr>frag_id_counter := frag_id_counter self + int (length hfrags)\<rparr>"
    by (simp add: s' len)
qed

lemma html_files_loop_ids:
  "html_files_loop ord fs self fts ign files = Inr (hfiles, self') \<Longrightarrow>
   map hfrag_id (concat (map hfile_fragments hfiles)) =
     map (\<lambda>i. frag_name (frag_id_counter self + 1 + int i))
       [0..<length (concat (map hfile_fragments hfiles))] \<and>
   self' = self\<lparr>frag_id_counter :=
             frag_id_counter self + int (length (concat (map hfile_fragments hfiles)))\<rparr>"
proof (induction files arbitrary: self hfiles self')
  case Nil
  then show ?case by simp
next
  case (Cons fl files)
  from Cons.prems obtain hfr self1 where
    h1: "html_fragments ord fs self fl (fts fl) ign = Inr (hfr, self1)"
    by (cases "html_fragments ord fs self fl (fts fl) ign") auto
  from Cons.prems h1 obtain rest self2 where
    h2: "html_files_loop ord fs self1 fts ign files = Inr (rest, self2)"
    by (cases "html_files_loop ord fs self1 fts ign files") (auto simp: case_prod_beta)
  have hf: "concat (map hfile_fragments hfiles) = hfr @ concat (map hfile_fragments rest)"
    and s2: "self' = self2"
    using Cons.prems h1 h2 by (auto simp: case_prod_beta)
  note p = html_fragments_ids[OF h1]
  note q = Cons.IH[OF h2]
  define c where "c = frag_id_counter self"
  define n1 where "n1 = length hfr"
  define n2 where "n2 = length (concat (map hfile_fragments rest))"
  have c1: "frag_id_counter self1 = c + int n1" by (simp add: p(2) c_def n1_def)
  have ids1: "map hfrag_id hfr = map (\<lambda>i. frag_name (c + 1 + int i)) [0..<n1]"
    using p(1) by (simp add: c_def n1_def)
  have ids2: "map hfrag_id (concat (map hfile_fragments rest)) =
              map (\<lambda>i. frag_name (c + 1 + int (n1 + i))) [0..<n2]"
    using q[THEN conjunct1] by (simp add: c1 n2_def add.assoc add.left_commute)
  have "map hfrag_id (hfr @ concat (map hfile_fragments rest)) =
        map (\<lambda>i. frag_name (c + 1 + int i)) [0..<n1 + n2]"
    unfolding map_upt_add[of _ n1 n2] using ids1 ids2 by simp
  moreover have "self2 = self\<lparr>frag_id_counter := c + int (n1 + n2)\<rparr>"
    using q[THEN conjunct2] by (simp add: p(2) c_def n1_def n2_def)
  ultimately show ?case
    unfolding hf s2 by (simp add: c_def n1_def n2_def)
qed

lemma html_submission_files:
  assumes "html_submission ord fs self sub fts ign = Inr (hsub, self')"
  shows "html_files ord fs self sub fts ign = Inr (hsub_files hsub, self')"
proof (cases "html_files ord fs self sub fts ign")
  case (Inl e)
  then show ?thesis using assms by (simp add: html_submission_def)
next
  case (Inr r)
  obtain files s where r: "r = (files, s)" by (cases r)
  show ?thesis using assms Inr r by (auto simp: html_submission_def Let_def)
qed

lemma html_submission_ids:
  assumes "html_submission ord fs self sub fts ign = Inr (hsub, self')"
  shows "map hfrag_id (concat (map hfile_fragments (hsub_files hsub))) =
     map (\<lambda>i. frag_name (frag_id_counter self + 1 + int i))
       [0..<length (concat (map hfile_fragments (hsub_files hsub)))]"
    and "self' = self\<lparr>frag_id_counter :=
             frag_id_counter self + int (length (concat (map hfile_fragments (hsub_files hsub))))\<rparr>"
  using html_files_loop_ids[OF html_submission_files[OF assms, unfolded html_files_def]]
  by blast+

lemma fragment_to_spans_dom:
  assumes "data ord self frags groups ign = (d, self')"
  shows "dom (data_fragment_to_spans d) = hfrag_id ` {h \<in> set frags. hfrag_is_grouped h}"
proof -
  from assms obtain fm self1 sg where
    l1: "fragment_to_spans_loop self ign frags Map.empty = (fm, self1)" and
    dfm: "data_fragment_to_spans d = fm"
    by (rule data_unfold)
  note p4 = fragment_to_spans_loop_props[OF l1, THEN conjunct2, THEN conjunct2, THEN conjunct2]
  have "k \<in> dom fm \<longleftrightarrow> k \<in> hfrag_id ` {h \<in> set frags. hfrag_is_grouped h}" for k
  proof -
    have "fm k = (if filter (\<lambda>h. hfrag_is_grouped h \<and> hfrag_id h = k) frags = [] then None
         else Some (recorded_ids self1 ign
                      (last (filter (\<lambda>h. hfrag_is_grouped h \<and> hfrag_id h = k) frags))))"
      using p4 by simp
    then have "k \<in> dom fm \<longleftrightarrow> filter (\<lambda>h. hfrag_is_grouped h \<and> hfrag_id h = k) frags \<noteq> []"
      by (simp add: dom_def)
    also have "\<dots> \<longleftrightarrow> (\<exists>h \<in> set frags. hfrag_is_grouped h \<and> hfrag_id h = k)"
      by (simp add: filter_empty_conv)
    also have "\<dots> \<longleftrightarrow> k \<in> hfrag_id ` {h \<in> set frags. hfrag_is_grouped h}"
      by blast
    finally show ?thesis .
  qed
  then show ?thesis unfolding dfm by (intro set_eqI)
qed

lemma distinct_frag_names: "distinct (map (\<lambda>i. frag_name (int i)) [0..<n])"
proof -
  have "inj_on (\<lambda>i. frag_name (int i)) (set [0..<n])"
    by (rule inj_onI) (auto dest: frag_name_inj)
  then show ?thesis by (simp add: distinct_map)
qed

lemma render_result_unfold:
  assumes "render_result ord fs result = Inr (sub_a, sub_b, d)"
  obtains self1 self2 where
    "html_submission ord fs renderer_init (score_sub_a (res_score result))
       (collect_spans ord (res_groups result) (res_ignored_spans result))
       (set (res_ignored_spans result)) = Inr (sub_a, self1)"
    "html_submission ord fs self1 (score_sub_b (res_score result))
       (collect_spans ord (res_groups result) (res_ignored_spans result))
       (set (res_ignored_spans result)) = Inr (sub_b, self2)"
    "d = fst (data ord self2 (all_html_fragments sub_a sub_b)
           (res_groups result) (set (res_ignored_spans result)))"
proof -
  let ?fts = "collect_spans ord (res_groups result) (res_ignored_spans result)"
  let ?ign = "set (res_ignored_spans result)"
  obtain a self1 where h1: "html_submission ord fs renderer_init (score_sub_a (res_score result)) ?fts ?ign
      = Inr (a, self1)"
    using assms
    by (cases "html_submission ord fs renderer_init (score_sub_a (res_score result)) ?fts ?ign")
      (auto simp: render_result_def Let_def)
  obtain b self2 where h2: "html_submission ord fs self1 (score_sub_b (res_score result)) ?fts ?ign
      = Inr (b, self2)"
    using assms h1
    by (cases "html_submission ord fs self1 (score_sub_b (res_score result)) ?fts ?ign")
      (auto simp: render_result_def Let_def)
  have eqs: "sub_a = a" "sub_b = b"
    "d = fst (data ord self2 (all_html_fragments a b)
           (res_groups result) ?ign)"
  proof -
    have "render_result ord fs result =
          Inr (a, b, fst (data ord self2 (all_html_fragments a b)
           (res_groups result) ?ign))"
      by (simp add: render_result_def Let_def h1 h2)
    then have "(sub_a, sub_b, d) = (a, b, fst (data ord self2 (all_html_fragments a b)
           (res_groups result) ?ign))"
      using assms by simp
    then show "sub_a = a" "sub_b = b"
      "d = fst (data ord self2 (all_html_fragments a b)
           (res_groups result) ?ign)"
      by blast+
  qed
  show ?thesis
    by (rule that[of self1 self2]) (simp_all only: eqs h1 h2)
qed

lemma submissions_ids:
  assumes a: "html_submission ord fs renderer_init sa fts ign = Inr (sub_a, self1)"
    and b: "html_submission ord fs self1 sb fts ign = Inr (sub_b, self2)"
  shows "map hfrag_id (all_html_fragments sub_a sub_b) =
           map (\<lambda>i. frag_name (int i)) [0..<length (all_html_fragments sub_a sub_b)]"
proof -
  define xs where "xs = concat (map hfile_fragments (hsub_files sub_a))"
  define ys where "ys = concat (map hfile_fragments (hsub_files sub_b))"
  note pa = html_submission_ids[OF a]
  note pb = html_submission_ids[OF b]
  have c1: "frag_id_counter self1 = int (length xs) - 1"
    by (simp add: pa(2) renderer_init_def xs_def)
  have ia: "map hfrag_id xs = map (\<lambda>i. frag_name (int i)) [0..<length xs]"
    using pa(1) by (simp add: renderer_init_def xs_def)
  have ib: "map hfrag_id ys = map (\<lambda>i. frag_name (int (length xs + i))) [0..<length ys]"
    using pb(1) by (simp add: c1 ys_def)
  have "map hfrag_id (xs @ ys) = map (\<lambda>i. frag_name (int i)) [0..<length xs + length ys]"
    unfolding map_upt_add[of _ "length xs" "length ys"] using ia ib by simp
  then show ?thesis by (simp add: all_html_fragments_def xs_def ys_def)
qed

text \<open>
  Claim C10. A call of \<^verbatim>\<open>frag_id\<close> advances the counter by one and returns the name built
  from the new value; the counter of a new renderer is \<open>- 1\<close>. So the fragments that one
  renderer produces for the two submissions of a result carry, in order, the ids
  \<^verbatim>\<open>frag0\<close>, \<^verbatim>\<open>frag1\<close>, and so on: they are pairwise distinct, and the \<open>fragment_to_spans\<close>
  that \<^verbatim>\<open>data\<close> builds from them has one key for every grouped fragment, as many keys as
  there are grouped fragments, so that no key is written twice.
\<close>

theorem frag_ids_distinct:
  assumes "render_result ord fs result = Inr (sub_a, sub_b, d)"
  shows "fst (frag_id self fr) = frag_name (frag_id_counter self + 1) \<and>
         frag_id_counter (snd (frag_id self fr)) = frag_id_counter self + 1 \<and>
         frag_id_counter renderer_init = - 1 \<and>
         map hfrag_id (all_html_fragments sub_a sub_b) =
           map (\<lambda>i. frag_name (int i)) [0..<length (all_html_fragments sub_a sub_b)] \<and>
         distinct (map hfrag_id (all_html_fragments sub_a sub_b)) \<and>
         dom (data_fragment_to_spans d) =
           hfrag_id ` {h \<in> set (all_html_fragments sub_a sub_b). hfrag_is_grouped h} \<and>
         card (dom (data_fragment_to_spans d)) =
           length (filter hfrag_is_grouped (all_html_fragments sub_a sub_b))"
proof -
  let ?fts = "collect_spans ord (res_groups result) (res_ignored_spans result)"
  let ?ign = "set (res_ignored_spans result)"
  let ?all = "all_html_fragments sub_a sub_b"
  from assms obtain self1 self2 where
    a: "html_submission ord fs renderer_init (score_sub_a (res_score result)) ?fts ?ign
          = Inr (sub_a, self1)" and
    b: "html_submission ord fs self1 (score_sub_b (res_score result)) ?fts ?ign
          = Inr (sub_b, self2)" and
    d: "d = fst (data ord self2 ?all (res_groups result) ?ign)"
    by (rule render_result_unfold)
  have ids: "map hfrag_id ?all = map (\<lambda>i. frag_name (int i)) [0..<length ?all]"
    using submissions_ids[OF a b] .
  have dist: "distinct (map hfrag_id ?all)"
    unfolding ids by (rule distinct_frag_names)
  obtain d' self3 where dt: "data ord self2 ?all (res_groups result) ?ign = (d', self3)"
    by (cases "data ord self2 ?all (res_groups result) ?ign")
  have dd: "d = d'" using d dt by simp
  have dm: "dom (data_fragment_to_spans d) = hfrag_id ` {h \<in> set ?all. hfrag_is_grouped h}"
    unfolding dd using fragment_to_spans_dom[OF dt] .
  have "hfrag_id ` {h \<in> set ?all. hfrag_is_grouped h} =
        set (map hfrag_id (filter hfrag_is_grouped ?all))" by auto
  moreover have "distinct (map hfrag_id (filter hfrag_is_grouped ?all))"
    using dist by (rule distinct_map_filter)
  ultimately have cd: "card (dom (data_fragment_to_spans d)) = length (filter hfrag_is_grouped ?all)"
    unfolding dm using distinct_card[of "map hfrag_id (filter hfrag_is_grouped ?all)"] by simp
  have f1: "fst (frag_id self fr) = frag_name (frag_id_counter self + 1)"
    and f2: "frag_id_counter (snd (frag_id self fr)) = frag_id_counter self + 1"
    by (simp_all add: frag_id_eq)
  have f3: "frag_id_counter renderer_init = - 1" by (simp add: renderer_init_def)
  show ?thesis by (intro conjI) (rule f1 f2 f3 ids dist dm cd)+
qed

lemma span_file_S: "span_file S1 = example_file" "span_file S2 = example_file"
  by (simp_all add: S1_def S2_def)

lemma example_collect:
  "collect_spans (order_of_list [S1, S2]) [G1] [S2] example_file = [S1, S2]"
  by (simp add: collect_spans_def append_span_def group_spans_G order12 span_file_S)

lemma example_submission:
  "\<exists>hsub. html_submission (order_of_list [S1, S2]) example_fs self example_sub
        (collect_spans (order_of_list [S1, S2]) [G1] [S2]) {S2} =
        Inr (hsub, self\<lparr>frag_id_counter := frag_id_counter self + 5\<rparr>) \<and>
      map hfrag_is_grouped (concat (map hfile_fragments (hsub_files hsub))) =
        [False, True, True, False, False]"
  by (simp add: html_submission_def html_files_def example_sub_def example_collect
      example_html_fragments case_prod_beta)

text \<open>
  The result of the scenario: ten fragments with the ids \<^verbatim>\<open>frag0\<close> to \<^verbatim>\<open>frag9\<close>, four of them
  grouped, and four keys.
\<close>

theorem frag_ids_distinct_witness:
  "\<exists>sub_a sub_b d.
     render_result (order_of_list [S1, S2]) example_fs example_result = Inr (sub_a, sub_b, d) \<and>
     length (all_html_fragments sub_a sub_b) = 10 \<and>
     map hfrag_id (all_html_fragments sub_a sub_b) ! 9 = frag_name 9 \<and>
     distinct (map hfrag_id (all_html_fragments sub_a sub_b)) \<and>
     card (dom (data_fragment_to_spans d)) = 4"
proof -
  let ?ord = "order_of_list [S1, S2]"
  let ?fts = "collect_spans ?ord [G1] [S2]"
  from example_submission[of renderer_init] obtain a where
    hga: "html_submission ?ord example_fs renderer_init example_sub ?fts {S2} =
        Inr (a, renderer_init\<lparr>frag_id_counter := frag_id_counter renderer_init + 5\<rparr>) \<and>
      map hfrag_is_grouped (concat (map hfile_fragments (hsub_files a))) =
        [False, True, True, False, False]" ..
  note ha = hga[THEN conjunct1] and ga = hga[THEN conjunct2]
  define s1 where "s1 = renderer_init\<lparr>frag_id_counter := frag_id_counter renderer_init + 5\<rparr>"
  from example_submission[of s1] obtain b where
    hgb: "html_submission ?ord example_fs s1 example_sub ?fts {S2} =
        Inr (b, s1\<lparr>frag_id_counter := frag_id_counter s1 + 5\<rparr>) \<and>
      map hfrag_is_grouped (concat (map hfile_fragments (hsub_files b))) =
        [False, True, True, False, False]" ..
  note hb = hgb[THEN conjunct1] and gb = hgb[THEN conjunct2]
  define d where "d = fst (data ?ord (s1\<lparr>frag_id_counter := frag_id_counter s1 + 5\<rparr>)
      (all_html_fragments a b) [G1] {S2})"
  have rr: "render_result ?ord example_fs example_result = Inr (a, b, d)"
    using ha hb by (simp add: render_result_def example_result_def Let_def s1_def d_def)
  have grouped: "map hfrag_is_grouped (all_html_fragments a b) =
      [False, True, True, False, False, False, True, True, False, False]"
    by (simp add: all_html_fragments_def ga gb)
  have len: "length (all_html_fragments a b) = 10"
    using arg_cong[OF grouped, of length] by simp
  have "length (filter hfrag_is_grouped (all_html_fragments a b)) =
        length (filter (\<lambda>x. x) (map hfrag_is_grouped (all_html_fragments a b)))"
    by (simp add: filter_map comp_def)
  also have "\<dots> = 4" unfolding grouped by simp
  finally have four: "length (filter hfrag_is_grouped (all_html_fragments a b)) = 4" .
  note t = frag_ids_distinct[OF rr, of renderer_init "Fragment [] []",
      THEN conjunct2, THEN conjunct2, THEN conjunct2]
  have ids: "map hfrag_id (all_html_fragments a b) =
           map (\<lambda>i. frag_name (int i)) [0..<length (all_html_fragments a b)]"
    by (rule t[THEN conjunct1])
  have nine: "map hfrag_id (all_html_fragments a b) ! 9 = frag_name 9"
    by (subst ids) (simp add: len)
  have dist: "distinct (map hfrag_id (all_html_fragments a b))"
    by (rule t[THEN conjunct2, THEN conjunct1])
  have cd: "card (dom (data_fragment_to_spans d)) = 4"
    using t[THEN conjunct2, THEN conjunct2, THEN conjunct2] by (simp only: four)
  show ?thesis
    using rr len nine dist cd by (intro exI[of _ a] exI[of _ b] exI[of _ d] conjI)
qed

section \<open>Properties of the top-level render\<close>

subsection \<open>The buckets of the submission pairs\<close>

lemma dict_append_keys:
  "map fst (dict_append d k v) = (if k \<in> set (map fst d) then map fst d else map fst d @ [k])"
  by (induction d k v rule: dict_append.induct) auto

lemma dict_append_map_of:
  "map_of (dict_append d k v) k' =
     (if k' = k then Some ((case map_of d k of None \<Rightarrow> [] | Some vs \<Rightarrow> vs) @ [v])
      else map_of d k')"
  by (induction d k v rule: dict_append.induct) auto

lemma first_occurrences_snoc:
  "first_occurrences (xs @ [x]) =
     (if x \<in> set xs then first_occurrences xs else first_occurrences xs @ [x])"
  by (simp add: first_occurrences_def)

lemma set_first_occurrences: "set (first_occurrences xs) = set xs"
  by (simp add: first_occurrences_def)

lemma distinct_first_occurrences: "distinct (first_occurrences xs)"
  by (simp add: first_occurrences_def)

lemma sub_pair_to_results_flat:
  "sub_pair_to_results passes =
     foldl (\<lambda>d result. dict_append d (sub_pair result) result) [] (concat passes)"
proof -
  have "foldl (\<lambda>d results. foldl (\<lambda>d result. dict_append d (sub_pair result) result) d results) a passes
        = foldl (\<lambda>d result. dict_append d (sub_pair result) result) a (concat passes)"
    for a :: "((submission \<times> submission) \<times> 'a result list) list"
    by (induction passes arbitrary: a) simp_all
  then show ?thesis by (simp add: sub_pair_to_results_def sub_pair_def)
qed

lemma grouped_dict:
  fixes rs :: "'k result list"
  defines "d \<equiv> foldl (\<lambda>d result. dict_append d (sub_pair result) result) [] rs"
  shows "map fst d = first_occurrences (map sub_pair rs)"
    and "map_of d k = (if k \<in> sub_pair ` set rs then Some (filter (\<lambda>r. sub_pair r = k) rs) else None)"
  unfolding d_def
proof (induction rs arbitrary: k rule: rev_induct)
  case Nil
  {
    case 1
    show ?case by (simp add: first_occurrences_def)
  next
    case 2
    show ?case by simp
  }
next
  case (snoc r rs)
  let ?d = "foldl (\<lambda>d result. dict_append d (sub_pair result) result) [] rs"
  {
    case 1
    show ?case
      using snoc.IH(1) by (simp add: dict_append_keys first_occurrences_snoc set_first_occurrences)
  next
    case 2
    show ?case
    proof (cases "k = sub_pair r")
      case True
      have "map_of ?d (sub_pair r) =
            (if sub_pair r \<in> sub_pair ` set rs then Some (filter (\<lambda>x. sub_pair x = sub_pair r) rs) else None)"
        by (rule snoc.IH(2))
      moreover have "sub_pair r \<notin> sub_pair ` set rs \<Longrightarrow> filter (\<lambda>x. sub_pair x = sub_pair r) rs = []"
        unfolding filter_empty_conv by (metis imageI)
      ultimately show ?thesis using True by (simp add: dict_append_map_of)
    next
      case False
      have "map_of ?d k =
            (if k \<in> sub_pair ` set rs then Some (filter (\<lambda>x. sub_pair x = k) rs) else None)"
        by (rule snoc.IH(2))
      then show ?thesis using False by (auto simp: dict_append_map_of)
    qed
  }
qed

lemma dict_closed_form:
  "distinct (map fst d) \<Longrightarrow> map (\<lambda>k. (k, the (map_of d k))) (map fst d) = d"
proof (induction d)
  case Nil
  then show ?case by simp
next
  case (Cons p d)
  obtain k v where p: "p = (k, v)" by (cases p)
  have k: "k \<notin> fst ` set d" using Cons.prems by (simp add: p)
  have dist: "distinct (map fst d)" using Cons.prems by simp
  have "map (\<lambda>k'. (k', the (map_of ((k, v) # d) k'))) (map fst d)
        = map (\<lambda>k'. (k', the (map_of d k'))) (map fst d)"
  proof (rule map_cong[OF refl])
    fix x assume "x \<in> set (map fst d)"
    then have "x \<noteq> k" using k by auto
    then show "(x, the (map_of ((k, v) # d) x)) = (x, the (map_of d x))" by simp
  qed
  also have "\<dots> = d" by (rule Cons.IH[OF dist])
  finally have tl: "map (\<lambda>k'. (k', the (map_of ((k, v) # d) k'))) (map fst d) = d" .
  have "map (\<lambda>k'. (k', the (map_of (p # d) k'))) (map fst (p # d))
        = (k, v) # map (\<lambda>k'. (k', the (map_of ((k, v) # d) k'))) (map fst d)"
    by (simp add: p)
  also have "\<dots> = p # d" by (simp only: tl p)
  finally show ?case .
qed

lemma sub_pair_to_results_closed:
  "sub_pair_to_results passes =
     map (\<lambda>k. (k, filter (\<lambda>r. sub_pair r = k) (concat passes)))
       (first_occurrences (map sub_pair (concat passes)))"
proof -
  define d where "d = sub_pair_to_results passes"
  define rs where "rs = concat passes"
  have dd: "d = foldl (\<lambda>d result. dict_append d (sub_pair result) result) [] rs"
    by (simp add: d_def rs_def sub_pair_to_results_flat)
  have keys: "map fst d = first_occurrences (map sub_pair rs)"
    unfolding dd by (rule grouped_dict(1))
  have look: "map_of d k =
      (if k \<in> sub_pair ` set rs then Some (filter (\<lambda>r. sub_pair r = k) rs) else None)" for k
    unfolding dd by (rule grouped_dict(2))
  have dist: "distinct (map fst d)" by (simp add: keys distinct_first_occurrences)
  have "d = map (\<lambda>k. (k, the (map_of d k))) (first_occurrences (map sub_pair rs))"
    using dict_closed_form[OF dist] by (simp only: keys)
  also have "\<dots> = map (\<lambda>k. (k, filter (\<lambda>r. sub_pair r = k) rs)) (first_occurrences (map sub_pair rs))"
    by (intro map_cong) (auto simp: look set_first_occurrences)
  finally show ?thesis by (simp add: d_def rs_def)
qed

lemma buckets_nonempty:
  "b \<in> set (map snd (sub_pair_to_results passes)) \<Longrightarrow> b \<noteq> []"
proof -
  assume "b \<in> set (map snd (sub_pair_to_results passes))"
  then obtain k where k: "k \<in> set (map sub_pair (concat passes))"
    and b: "b = filter (\<lambda>r. sub_pair r = k) (concat passes)"
    unfolding sub_pair_to_results_closed by (auto simp: set_first_occurrences)
  then obtain r where "r \<in> set (concat passes)" "sub_pair r = k" by auto
  then show "b \<noteq> []" unfolding b by (simp add: filter_empty_conv) blast
qed

lemma py_sorted_reverse_stable:
  "filter (\<lambda>y. key y = k) (py_sorted_reverse key xs) = filter (\<lambda>y. key y = k) xs"
proof -
  have "filter (\<lambda>y. key y = k) (py_sorted_reverse key xs)
        = rev (filter (\<lambda>y. key y = k) (sort_key key (rev xs)))"
    by (simp add: py_sorted_reverse_def rev_filter)
  also have "\<dots> = rev (filter (\<lambda>y. key y = k) (rev xs))"
    by (simp only: sort_key_stable)
  also have "\<dots> = filter (\<lambda>y. key y = k) xs" by (simp add: rev_filter)
  finally show ?thesis .
qed

lemma length_py_sorted_reverse: "length (py_sorted_reverse key xs) = length xs"
  by (simp add: py_sorted_reverse_def)

lemma results_per_sub_pair_Inr:
  "results_per_sub_pair passes =
     Inr (py_sorted_reverse first_score (map snd (sub_pair_to_results passes)))"
proof -
  have ne: "\<not> list_ex (\<lambda>res. res = []) (map snd (sub_pair_to_results passes))"
    using buckets_nonempty[of _ passes] unfolding list_ex_iff by blast
  have key: "first_score = (\<lambda>res::'a result list. score_value (res_score (hd res)))"
    by (rule ext) (simp add: first_score_def)
  show ?thesis unfolding key using ne by (simp add: results_per_sub_pair_def Let_def)
qed

text \<open>
  Claim C8, amended. \<^verbatim>\<open>render\<close> groups the results of all passes by their pair of
  submissions: the buckets are created in the order in which their pair is first met,
  and a bucket holds the results of its pair in the order in which they are met, so no
  bucket is empty. The buckets are then sorted by the score of their first result,
  highest first, buckets of equal key staying in the order in which they were created,
  and the match ids are their positions in that order, counted from 1.
\<close>

theorem render_order:
  "\<exists>buckets. render_matches passes = Inr (enumerate 1 buckets) \<and>
     sub_pair_to_results passes =
       map (\<lambda>k. (k, filter (\<lambda>r. sub_pair r = k) (concat passes)))
         (first_occurrences (map sub_pair (concat passes))) \<and>
     set buckets = set (map snd (sub_pair_to_results passes)) \<and>
     length buckets = length (sub_pair_to_results passes) \<and>
     (\<forall>b \<in> set buckets. b \<noteq> []) \<and>
     sorted (rev (map first_score buckets)) \<and>
     (\<forall>s. filter (\<lambda>b. first_score b = s) buckets =
          filter (\<lambda>b. first_score b = s) (map snd (sub_pair_to_results passes))) \<and>
     map fst (enumerate 1 buckets) = [1..<Suc (length buckets)] \<and>
     map snd (enumerate 1 buckets) = buckets"
proof -
  define buckets where
    "buckets = py_sorted_reverse first_score (map snd (sub_pair_to_results passes))"
  have rm: "render_matches passes = Inr (enumerate 1 buckets)"
    by (simp add: render_matches_def results_per_sub_pair_Inr buckets_def)
  have st: "set buckets = set (map snd (sub_pair_to_results passes))"
    unfolding buckets_def by (rule set_py_sorted_reverse)
  have ln: "length buckets = length (sub_pair_to_results passes)"
    by (simp add: buckets_def length_py_sorted_reverse)
  have ne: "\<forall>b \<in> set buckets. b \<noteq> []"
    unfolding st using buckets_nonempty by blast
  have so: "sorted (rev (map first_score buckets))"
    unfolding buckets_def by (rule sorted_py_sorted_reverse)
  have sb: "\<forall>s. filter (\<lambda>b. first_score b = s) buckets =
          filter (\<lambda>b. first_score b = s) (map snd (sub_pair_to_results passes))"
    unfolding buckets_def by (simp only: py_sorted_reverse_stable) simp
  have e1: "map fst (enumerate 1 buckets) = [1..<Suc (length buckets)]"
    by (simp add: map_fst_enumerate)
  have e2: "map snd (enumerate 1 buckets) = buckets" by (rule map_snd_enumerate)
  show ?thesis
    by (intro exI[of _ buckets] conjI) (rule rm sub_pair_to_results_closed st ln ne so sb e1 e2)+
qed

lemma subs_neq: "example_sub \<noteq> other_sub" "other_sub \<noteq> example_sub"
  by (simp_all add: example_sub_def other_sub_def str_lit_def)

lemma r_pairs:
  "sub_pair r_low = (example_sub, other_sub)"
  "sub_pair r_mid = (other_sub, example_sub)"
  "sub_pair r_high = (example_sub, other_sub)"
  by (simp_all add: sub_pair_def r_low_def r_mid_def r_high_def)

lemma r_fields:
  "res_sub_a r_low = example_sub" "res_sub_b r_low = other_sub"
  "res_sub_a r_mid = other_sub" "res_sub_b r_mid = example_sub"
  "res_sub_a r_high = example_sub" "res_sub_b r_high = other_sub"
  "score_value (res_score r_low) = 1"
  "score_value (res_score r_mid) = 5"
  "score_value (res_score r_high) = 9"
  by (simp_all add: r_low_def r_mid_def r_high_def)

lemma example_dict:
  "sub_pair_to_results [[r_low, r_mid], [r_high]] =
     [((example_sub, other_sub), [r_low, r_high]), ((other_sub, example_sub), [r_mid])]"
  by (simp add: sub_pair_to_results_def r_fields subs_neq)

lemma example_first_scores:
  "first_score [r_low, r_high] = 1" "first_score [r_mid] = 5"
  by (simp_all add: first_score_def r_fields)

lemma example_buckets_sorted:
  "py_sorted_reverse first_score [[r_low, r_high], [r_mid]] = [[r_mid], [r_low, r_high]]"
  by (simp add: py_sorted_reverse_def example_first_scores)

lemma example_render:
  "render_matches [[r_low, r_mid], [r_high]] = Inr [(1, [r_mid]), (2, [r_low, r_high])]"
proof -
  have "results_per_sub_pair [[r_low, r_mid], [r_high]] = Inr [[r_mid], [r_low, r_high]]"
    by (simp add: results_per_sub_pair_def Let_def example_dict first_score_def[symmetric] example_buckets_sorted
          del: One_nat_def)
  then show ?thesis by (simp add: render_matches_def enumerate_eq_zip)
qed

text \<open>
  Claim C8, as stated, orders the buckets by the best score of each bucket. The key of the
  sort is \<^verbatim>\<open>res[0].score\<close>, the score of the result met first. With a pair whose results
  score 1 and then 9, and another pair whose only result scores 5, the bucket of best
  score 5 is rendered as match 1 and the bucket of best score 9 as match 2.
\<close>

theorem render_best_score_counterexample:
  "render_matches [[r_low, r_mid], [r_high]] = Inr [(1, [r_mid]), (2, [r_low, r_high])] \<and>
   sub_pair r_low = sub_pair r_high \<and> sub_pair r_mid \<noteq> sub_pair r_low \<and>
   best_score [r_mid] = 5 \<and> best_score [r_low, r_high] = 9 \<and>
   best_score [r_mid] < best_score [r_low, r_high] \<and>
   first_score [r_mid] = 5 \<and> first_score [r_low, r_high] = 1"
  by (simp add: example_render best_score_def r_fields example_first_scores r_pairs subs_neq)

text \<open>
  The same three results: two buckets in the order of their pairs, sorted by the score of
  their first result, with the match ids 1 and 2.
\<close>

theorem render_order_witness:
  "render_matches [[r_low, r_mid], [r_high]] = Inr [(1, [r_mid]), (2, [r_low, r_high])] \<and>
   sub_pair_to_results [[r_low, r_mid], [r_high]] =
     [((example_sub, other_sub), [r_low, r_high]), ((other_sub, example_sub), [r_mid])] \<and>
   first_occurrences (map sub_pair (concat [[r_low, r_mid], [r_high]])) =
     [(example_sub, other_sub), (other_sub, example_sub)] \<and>
   [r_mid] \<noteq> [] \<and> [r_low, r_high] \<noteq> [] \<and>
   sorted (rev (map first_score [[r_mid], [r_low, r_high]])) \<and>
   map fst (enumerate 1 [[r_mid], [r_low, r_high]]) = [1, 2]"
proof -
  obtain buckets where
    rm: "render_matches [[r_low, r_mid], [r_high]] = Inr (enumerate 1 buckets)"
    and ne: "\<forall>b \<in> set buckets. b \<noteq> []"
    and so: "sorted (rev (map first_score buckets))"
    and ef: "map fst (enumerate 1 buckets) = [1..<Suc (length buckets)]"
    and es: "map snd (enumerate 1 buckets) = buckets"
    using render_order[of "[[r_low, r_mid], [r_high]]"] by (elim exE conjE)
  have "enumerate 1 buckets = [(1, [r_mid]), (2, [r_low, r_high])]"
    using rm by (simp only: example_render sum.inject)
  then have "map snd (enumerate 1 buckets) = [[r_mid], [r_low, r_high]]" by simp
  then have b: "buckets = [[r_mid], [r_low, r_high]]" by (simp only: es)
  have fo: "first_occurrences (map sub_pair (concat [[r_low, r_mid], [r_high]])) =
     [(example_sub, other_sub), (other_sub, example_sub)]"
    by (simp add: first_occurrences_def r_pairs subs_neq)
  have p4: "[r_mid] \<noteq> []" using ne by (simp add: b)
  have p5: "[r_low, r_high] \<noteq> []" using ne by (simp add: b)
  have p7: "map fst (enumerate 1 [[r_mid], [r_low, r_high]]) = [1, 2]"
    using ef unfolding b by (simp add: upt_rec)
  show ?thesis
    by (intro conjI) (rule example_render example_dict fo p4 p5 so[unfolded b] p7)+
qed

end
